theory Spec2Isabelle
  imports Main "HOL-Library.Finite_Map"
begin

section \<open>Data model\<close>

text \<open>
  Symbols are Python strings: the input symbols \<open>'a'\<close> and \<open>'b'\<close>, the blank \<open>'_'\<close>,
  the pseudo-symbol \<open>'eps'\<close> of an epsilon move, and the head moves \<open>'L'\<close> and \<open>'R'\<close>.
  An input string is the sequence of its symbols.
\<close>

type_synonym symbol = string

text \<open>
  An automaton is the dictionary with the keys \<open>states\<close>, \<open>alphabet\<close>, \<open>start_state\<close>,
  \<open>accept_states\<close> and \<open>transitions\<close>. The transition dictionary is a finite map from
  (state, symbol) to a list of successors (NFA) or to one successor (DFA).
\<close>

record ('q, 't) automaton =
  states :: "'q list"
  alphabet :: "symbol list"
  start_state :: 'q
  accept_states :: "'q list"
  transitions :: "('q \<times> symbol, 't) fmap"

type_synonym 'q nfa = "('q, 'q list) automaton"
type_synonym dfa = "(int, int) automaton"

record tm =
  num_states :: int
  tm_start_state :: int
  blank :: symbol
  tm_transitions :: "(int \<times> symbol, int \<times> symbol \<times> symbol) fmap"
  tm_accept_states :: "int list"
  tm_reject_states :: "int list"

definition INPUT_ALPHABET :: "symbol list" where
  "INPUT_ALPHABET = [''a'', ''b'']"

definition TAPE_ALPHABET :: "symbol list" where
  "TAPE_ALPHABET = [''a'', ''b'', ''_'']"

definition MOVES :: "symbol list" where
  "MOVES = [''L'', ''R'']"

section \<open>DFA to Turing-machine decider\<close>

text \<open>
  \<open>dfa_to_tm_decider\<close>: the two nested \<open>for\<close> loops are folds over the DFA's state list
  and over \<open>INPUT_ALPHABET\<close>; each assignment to the dictionary is an update of the map.
\<close>

definition tm_symbol_entry :: "dfa \<Rightarrow> int \<Rightarrow> int \<Rightarrow> symbol \<Rightarrow>
    (int \<times> symbol, int \<times> symbol \<times> symbol) fmap \<Rightarrow> (int \<times> symbol, int \<times> symbol \<times> symbol) fmap" where
  "tm_symbol_entry dfa reject_state state symbol tm_trans =
     (let nxt_st =
            (if symbol \<in> set (alphabet dfa) then
               (case fmlookup (transitions dfa) (state, symbol) of
                  Some t \<Rightarrow> t
                | None \<Rightarrow> reject_state)
             else reject_state);
          tape_char = symbol;
          direction = ''R''
      in fmupd (state, symbol) (nxt_st, tape_char, direction) tm_trans)"

definition tm_state_entries :: "dfa \<Rightarrow> int \<Rightarrow> int \<Rightarrow> int \<Rightarrow>
    (int \<times> symbol, int \<times> symbol \<times> symbol) fmap \<Rightarrow> (int \<times> symbol, int \<times> symbol \<times> symbol) fmap" where
  "tm_state_entries dfa accept_state reject_state state tm_trans =
     (let tm_trans = fold (tm_symbol_entry dfa reject_state state) INPUT_ALPHABET tm_trans;
          key_blank = (state, ''_'');
          tape_char_blank = ''_'';
          nxt_st_blank = (if state \<in> set (accept_states dfa) then accept_state else reject_state);
          direction_blank = ''R''
      in fmupd key_blank (nxt_st_blank, tape_char_blank, direction_blank) tm_trans)"

definition dfa_to_tm_decider :: "dfa \<Rightarrow> tm" where
  "dfa_to_tm_decider dfa =
     (let dfa_states = states dfa;
          dfa_start = start_state dfa;
          num_dfa_states = int (length dfa_states);
          accept_state = num_dfa_states;
          reject_state = num_dfa_states + 1;
          tm_trans = fold (tm_state_entries dfa accept_state reject_state) dfa_states fmempty;
          tm_states = map int [0 ..< nat (num_dfa_states + 2)]
      in \<lparr> num_states = int (length tm_states),
           tm_start_state = dfa_start,
           blank = ''_'',
           tm_transitions = tm_trans,
           tm_accept_states = [accept_state],
           tm_reject_states = [reject_state] \<rparr>)"

section \<open>Turing-machine simulation\<close>

text \<open>
  The exceptions \<open>simulate_tm\<close> can raise on a well-typed machine: the \<open>IndexError\<close> of
  \<open>tape[head]\<close>, when the head is still beyond the tape after one blank was appended, and the
  \<open>ValueError\<close> of the f-string in \<open>format_configuration\<close>, when an integer to print has more
  decimal digits than CPython converts (\<open>sys.int_max_str_digits\<close>, 4300 by default).
\<close>

datatype error = IndexError | ValueError

definition int_max_str_digits :: nat where
  "int_max_str_digits = 4300"

text \<open>
  Decimal rendering of a Python integer, as the f-string of \<open>format_configuration\<close> prints it:
  the digits of the absolute value, counted against the limit, then the sign.
\<close>

fun str_nat :: "nat \<Rightarrow> string" where
  "str_nat n = (if n < 10 then [''0123456789'' ! n]
                else str_nat (n div 10) @ [''0123456789'' ! (n mod 10)])"

declare str_nat.simps [simp del]

definition str_int :: "int \<Rightarrow> error + string" where
  "str_int i =
     (let digits = str_nat (nat \<bar>i\<bar>)
      in if int_max_str_digits < length digits then Inl ValueError
         else Inr (if i < 0 then ''-'' @ digits else digits))"

definition format_configuration :: "int \<Rightarrow> symbol list \<Rightarrow> int \<Rightarrow> error + string" where
  "format_configuration state tape head_position =
     (let tape_str = concat tape
      in case str_int state of
           Inl e \<Rightarrow> Inl e
         | Inr state_str \<Rightarrow>
             (case str_int head_position of
                Inl e \<Rightarrow> Inl e
              | Inr head_str \<Rightarrow>
                  Inr (''state='' @ state_str @ '', tape='' @ tape_str @ '', head pos='' @ head_str)))"

text \<open>The variables of the \<open>while True\<close> loop of \<open>simulate_tm\<close>.\<close>

record tm_config =
  c_tape :: "symbol list"
  c_head :: int
  c_state :: int
  c_configurations :: "string list"
  c_steps :: int

datatype ('r, 's) iteration = Return 'r | Continue 's

text \<open>
  One pass through the body of the loop: it returns from \<open>simulate_tm\<close> (with a result or
  with the exception raised), or it reaches the end of the body with new values of the
  variables. The verdict is the integer \<open>1\<close> (accept) or \<open>0\<close> (reject).
\<close>

definition tm_body :: "tm \<Rightarrow> int option \<Rightarrow> tm_config \<Rightarrow>
    (error + int \<times> string list, tm_config) iteration" where
  "tm_body tm max_steps c =
     (case format_configuration (c_state c) (c_tape c) (c_head c) of
        Inl e \<Rightarrow> Return (Inl e)
      | Inr line \<Rightarrow>
     (let configurations = c_configurations c @ [line] in
      if c_state c \<in> set (tm_accept_states tm) then Return (Inr (1, configurations))
      else if c_state c \<in> set (tm_reject_states tm) then Return (Inr (0, configurations))
      else if (case max_steps of None \<Rightarrow> False | Some m \<Rightarrow> c_steps c \<ge> m)
        then Return (Inr (0, configurations))
      else
        let (tape, head) = (if c_head c < 0 then (blank tm # c_tape c, 0) else (c_tape c, c_head c));
            tape = (if head \<ge> int (length tape) then tape @ [blank tm] else tape)
        in if head \<ge> int (length tape) then Return (Inl IndexError)
           else
             let current_symbol = tape ! nat head;
                 key = (c_state c, current_symbol)
             in case fmlookup (tm_transitions tm) key of
                  None \<Rightarrow> Return (Inr (0, configurations))
                | Some (nxt_st, tape_char, direction) \<Rightarrow>
                    Continue \<lparr> c_tape = tape[nat head := tape_char],
                               c_head = (if direction = ''R'' then head + 1 else head - 1),
                               c_state = nxt_st,
                               c_configurations = configurations,
                               c_steps = c_steps c + 1 \<rparr>))"

text \<open>
  The loop has no bound of its own (\<open>max_steps\<close> may be absent), so it is a partial function:
  \<open>None\<close> is a run that never returns.
\<close>

partial_function (option) tm_loop :: "tm \<Rightarrow> int option \<Rightarrow> tm_config \<Rightarrow>
    (error + int \<times> string list) option" where
  "tm_loop tm max_steps c =
     (case tm_body tm max_steps c of
        Return r \<Rightarrow> Some r
      | Continue c' \<Rightarrow> tm_loop tm max_steps c')"

declare tm_loop.simps [code]

definition tm_initial :: "tm \<Rightarrow> symbol list \<Rightarrow> tm_config" where
  "tm_initial tm input_string =
     \<lparr> c_tape = input_string @ [blank tm], c_head = 0, c_state = tm_start_state tm,
       c_configurations = [], c_steps = 0 \<rparr>"

definition simulate_tm :: "tm \<Rightarrow> symbol list \<Rightarrow> int option \<Rightarrow> (error + int \<times> string list) option" where
  "simulate_tm tm input_string max_steps = tm_loop tm max_steps (tm_initial tm input_string)"
section \<open>Notions used to state the properties of the machines\<close>

text \<open>
  \<open>tm_iter tm max_steps k c\<close> is the value of the loop variables of \<open>simulate_tm\<close> when the
  loop, started with the variables \<open>c\<close>, begins its pass number \<open>k\<close> (counted from 0), that is
  after \<open>k\<close> transitions; it is \<open>None\<close> when the loop has returned before.
\<close>

fun tm_iter :: "tm \<Rightarrow> int option \<Rightarrow> nat \<Rightarrow> tm_config \<Rightarrow> tm_config option" where
  "tm_iter tm max_steps 0 c = Some c"
| "tm_iter tm max_steps (Suc k) c =
     (case tm_iter tm max_steps k c of
        None \<Rightarrow> None
      | Some c' \<Rightarrow> (case tm_body tm max_steps c' of Return r \<Rightarrow> None | Continue c'' \<Rightarrow> Some c''))"

text \<open>
  An integer renders when the f-string can print it: its decimal digits are within the limit.
  The numbers a decider can print are its state numbers: the start state, the transition
  targets and the two sinks.
\<close>

definition renders :: "int \<Rightarrow> bool" where
  "renders i \<longleftrightarrow> length (str_nat (nat \<bar>i\<bar>)) \<le> int_max_str_digits"

definition dfa_renders :: "dfa \<Rightarrow> bool" where
  "dfa_renders dfa \<longleftrightarrow>
     renders (start_state dfa) \<and>
     renders (int (length (states dfa)) + 1) \<and>
     (\<forall>k t. fmlookup (transitions dfa) k = Some t \<longrightarrow> renders t)"

text \<open>The symbol under the head that the body reads, after the tape has been extended.\<close>

definition tm_read :: "tm \<Rightarrow> tm_config \<Rightarrow> symbol" where
  "tm_read tm c =
     (let (tape, head) = (if c_head c < 0 then (blank tm # c_tape c, 0) else (c_tape c, c_head c));
          tape = (if head \<ge> int (length tape) then tape @ [blank tm] else tape)
      in tape ! nat head)"

text \<open>
  Acceptance by a DFA, as the specification understands it: the run follows the transition
  dictionary from the start state; a symbol outside the declared alphabet or a missing entry
  rejects; the string is accepted when the run ends in an accept state.
\<close>

fun dfa_run :: "dfa \<Rightarrow> int \<Rightarrow> symbol list \<Rightarrow> int option" where
  "dfa_run dfa q [] = Some q"
| "dfa_run dfa q (x # xs) =
     (if x \<in> set (alphabet dfa) then
        (case fmlookup (transitions dfa) (q, x) of
           None \<Rightarrow> None
         | Some t \<Rightarrow> dfa_run dfa t xs)
      else None)"

definition dfa_accepts :: "dfa \<Rightarrow> symbol list \<Rightarrow> bool" where
  "dfa_accepts dfa w =
     (case dfa_run dfa (start_state dfa) w of
        None \<Rightarrow> False
      | Some q \<Rightarrow> q \<in> set (accept_states dfa))"

text \<open>
  A DFA of the shape \<open>nfa_to_dfa\<close> returns and the data model requires: the states are the
  indices \<open>0 .. N-1\<close>, and the start state and every transition target are states.
\<close>

definition dfa_wf :: "dfa \<Rightarrow> bool" where
  "dfa_wf dfa \<longleftrightarrow>
     states dfa = map int [0 ..< length (states dfa)] \<and>
     start_state dfa \<in> set (states dfa) \<and>
     (\<forall>k t. fmlookup (transitions dfa) k = Some t \<longrightarrow> t \<in> set (states dfa))"

text \<open>
  The successor state that \<open>dfa_to_tm_decider\<close> stores for a DFA state \<open>q\<close> and a symbol
  \<open>x\<close>, and the verdict of the decider started in state \<open>q\<close> with the rest \<open>w\<close> of the input
  (followed by the blank) ahead of the head.
\<close>

definition tmd_next :: "dfa \<Rightarrow> int \<Rightarrow> symbol \<Rightarrow> int" where
  "tmd_next dfa q x =
     (let n = int (length (states dfa)) in
      if x = ''_'' then (if q \<in> set (accept_states dfa) then n else n + 1)
      else if x \<in> set (alphabet dfa) then
        (case fmlookup (transitions dfa) (q, x) of Some t \<Rightarrow> t | None \<Rightarrow> n + 1)
      else n + 1)"

fun tmd_verdict :: "dfa \<Rightarrow> int \<Rightarrow> symbol list \<Rightarrow> int" where
  "tmd_verdict dfa q [] =
     (if q = int (length (states dfa)) then 1
      else if q = int (length (states dfa)) + 1 then 0
      else if q \<in> set (states dfa) \<and> q \<in> set (accept_states dfa) then 1 else 0)"
| "tmd_verdict dfa q (x # xs) =
     (if q = int (length (states dfa)) then 1
      else if q = int (length (states dfa)) + 1 then 0
      else if q \<notin> set (states dfa) then 0
      else if x = ''_'' then (if q \<in> set (accept_states dfa) then 1 else 0)
      else if x \<in> set INPUT_ALPHABET then tmd_verdict dfa (tmd_next dfa q x) xs
      else 0)"


section \<open>NFA to DFA: subset construction\<close>

text \<open>
  A mutable Python \<open>set\<close> of NFA states is modelled by the list of its elements without
  repetition. Python iterates a set in an order of its own; the model iterates in the order of
  insertion. The code reads such a set only through membership, emptiness, iteration and
  \<open>frozenset\<close>, and the sets that \<open>epsilon_closure\<close> and \<open>move_nfa\<close> return do not depend
  on the order of iteration (lemmas \<open>set_epsilon_closure\<close> and \<open>set_move_nfa\<close>). A
  \<open>frozenset\<close> used as a dictionary key is the HOL set of the elements, so two keys are
  equal exactly when the two sets are.
\<close>

definition add :: "'a \<Rightarrow> 'a list \<Rightarrow> 'a list" where
  "add x s = (if x \<in> set s then s else s @ [x])"

text \<open>
  \<open>epsilon_closure\<close>: the inner \<open>for\<close> loop over \<open>next_states\<close>, then the \<open>while stack\<close>
  loop. \<open>stack.pop()\<close> removes the last element.
\<close>

definition epsilon_closure_push :: "'q list \<Rightarrow> 'q list \<times> 'q list \<Rightarrow> 'q list \<times> 'q list" where
  "epsilon_closure_push next_states =
     fold (\<lambda>nxt (closure, stack).
             if nxt \<notin> set closure then (closure @ [nxt], stack @ [nxt]) else (closure, stack))
          next_states"

text \<open>
  The states that occur as a successor in the transition dictionary; the loops below end
  because only these states can be added.
\<close>

definition nfa_targets :: "'q nfa \<Rightarrow> 'q set" where
  "nfa_targets nfa = \<Union> (set ` fmran' (transitions nfa))"

function epsilon_closure_loop :: "'q nfa \<Rightarrow> 'q list \<Rightarrow> 'q list \<Rightarrow> 'q list" where
  "epsilon_closure_loop nfa closure stack =
     (if stack = [] then closure
      else
        let state = last stack;
            stack = butlast stack;
            key = (state, ''eps'')
        in case fmlookup (transitions nfa) key of
             None \<Rightarrow> epsilon_closure_loop nfa closure stack
           | Some next_states \<Rightarrow>
               (case epsilon_closure_push next_states (closure, stack) of
                  (closure, stack) \<Rightarrow> epsilon_closure_loop nfa closure stack))"
  by pat_completeness auto

definition epsilon_closure :: "'q nfa \<Rightarrow> 'q list \<Rightarrow> 'q list" where
  "epsilon_closure nfa state_set =
     (let closure = remdups state_set;
          stack = state_set
      in epsilon_closure_loop nfa closure stack)"

text \<open>\<open>move_nfa\<close>: the body of \<open>for state in state_set\<close>, then the loop.\<close>

definition move_nfa_state :: "'q nfa \<Rightarrow> symbol \<Rightarrow> 'q \<Rightarrow> 'q list \<Rightarrow> 'q list" where
  "move_nfa_state nfa symbol state result =
     (let key = (state, symbol) in
      case fmlookup (transitions nfa) key of
        None \<Rightarrow> result
      | Some next_states \<Rightarrow> fold add next_states result)"

definition move_nfa :: "'q nfa \<Rightarrow> 'q list \<Rightarrow> symbol \<Rightarrow> 'q list" where
  "move_nfa nfa state_set symbol = fold (move_nfa_state nfa symbol) state_set []"

text \<open>
  \<open>nfa_to_dfa\<close>. The body of \<open>for symbol in alphabet\<close> updates \<open>subset_to_index\<close>,
  \<open>subsets\<close> and \<open>dfa_transitions\<close>; \<open>subset_to_index[target_frozen]\<close> is read after the
  key has been stored, so the lookup cannot miss.
\<close>

type_synonym 'q subset_table = "('q set, int) fmap \<times> 'q list list \<times> (int \<times> symbol, int) fmap"

definition nfa_to_dfa_symbol :: "'q nfa \<Rightarrow> 'q list \<Rightarrow> int \<Rightarrow> symbol \<Rightarrow>
    'q subset_table \<Rightarrow> 'q subset_table" where
  "nfa_to_dfa_symbol nfa subset' current_index symbol =
     (\<lambda>(subset_to_index, subsets, dfa_transitions).
        let move_set = move_nfa nfa subset' symbol;
            target_closure = (if move_set \<noteq> [] then epsilon_closure nfa move_set else []);
            target_frozen = set target_closure;
            (subset_to_index, subsets) =
              (if target_frozen \<notin> fmdom' subset_to_index then
                 let new_index = int (length subsets)
                 in (fmupd target_frozen new_index subset_to_index, subsets @ [target_closure])
               else (subset_to_index, subsets));
            next_index = the (fmlookup subset_to_index target_frozen)
        in (subset_to_index, subsets, fmupd (current_index, symbol) next_index dfa_transitions))"

text \<open>
  The \<open>while index < len(subsets)\<close> loop. It returns the variables that the rest of
  \<open>nfa_to_dfa\<close> reads: \<open>subsets\<close>, \<open>dfa_transitions\<close> and \<open>dfa_accept_states\<close>.
\<close>

function nfa_to_dfa_loop :: "'q nfa \<Rightarrow> nat \<Rightarrow> 'q subset_table \<Rightarrow> int list \<Rightarrow>
    'q list list \<times> (int \<times> symbol, int) fmap \<times> int list" where
  "nfa_to_dfa_loop nfa index table dfa_accept_states =
     (case table of (subset_to_index, subsets, dfa_transitions) \<Rightarrow>
        if index < length subsets then
          let subset' = subsets ! index;
              current_index = int index;
              table = fold (nfa_to_dfa_symbol nfa subset' current_index) (alphabet nfa) table;
              dfa_accept_states =
                (if \<exists>s \<in> set subset'. s \<in> set (accept_states nfa)
                 then add current_index dfa_accept_states else dfa_accept_states)
          in nfa_to_dfa_loop nfa (index + 1) table dfa_accept_states
        else (subsets, dfa_transitions, dfa_accept_states))"
  by pat_completeness auto

definition nfa_to_dfa_run :: "'q nfa \<Rightarrow> 'q list list \<times> (int \<times> symbol, int) fmap \<times> int list" where
  "nfa_to_dfa_run nfa =
     (let start_closure = epsilon_closure nfa [start_state nfa];
          start_frozen = set start_closure
      in nfa_to_dfa_loop nfa 0 (fmupd start_frozen 0 fmempty, [start_closure], fmempty) [])"

definition nfa_to_dfa :: "'q nfa \<Rightarrow> dfa" where
  "nfa_to_dfa nfa =
     (case nfa_to_dfa_run nfa of (subsets, dfa_transitions, dfa_accept_states) \<Rightarrow>
        \<lparr> states = map int [0 ..< length subsets],
          alphabet = alphabet nfa,
          start_state = 0,
          accept_states = sort dfa_accept_states,
          transitions = dfa_transitions \<rparr>)"

definition build_example_nfa :: "int nfa" where
  "build_example_nfa =
     \<lparr> states = [0, 1, 2], alphabet = [''a'', ''b''], start_state = 0, accept_states = [2],
       transitions = fmupd (1, ''b'') [2] (fmupd (0, ''b'') [0] (fmupd (0, ''a'') [0, 1] fmempty)) \<rparr>"

section \<open>Reference semantics\<close>

text \<open>
  The language of an NFA, as the textbook defines it: \<open>nfa_reach nfa q w q'\<close> holds when the
  automaton can go from \<open>q\<close> to \<open>q'\<close> reading \<open>w\<close>, where a move under the key
  \<open>(q, 'eps')\<close> reads nothing and a move under \<open>(q, a)\<close> reads the symbol \<open>a\<close>. A missing
  key is an empty successor set.
\<close>

inductive nfa_reach :: "'q nfa \<Rightarrow> 'q \<Rightarrow> symbol list \<Rightarrow> 'q \<Rightarrow> bool" for nfa :: "'q nfa" where
  reach_refl: "nfa_reach nfa q [] q"
| reach_eps: "fmlookup (transitions nfa) (q, ''eps'') = Some next_states \<Longrightarrow> q' \<in> set next_states \<Longrightarrow>
     nfa_reach nfa q' w q'' \<Longrightarrow> nfa_reach nfa q w q''"
| reach_symbol: "fmlookup (transitions nfa) (q, a) = Some next_states \<Longrightarrow> q' \<in> set next_states \<Longrightarrow>
     nfa_reach nfa q' w q'' \<Longrightarrow> nfa_reach nfa q (a # w) q''"

definition nfa_accepts :: "'q nfa \<Rightarrow> symbol list \<Rightarrow> bool" where
  "nfa_accepts nfa w \<longleftrightarrow> (\<exists>q \<in> set (accept_states nfa). nfa_reach nfa (start_state nfa) w q)"

text \<open>The sets of states that the subset construction computes, on the level of sets.\<close>

definition eps_rel :: "'q nfa \<Rightarrow> ('q \<times> 'q) set" where
  "eps_rel nfa = {(q, q'). \<exists>next_states. fmlookup (transitions nfa) (q, ''eps'') = Some next_states
                     \<and> q' \<in> set next_states}"

definition eps_close :: "'q nfa \<Rightarrow> 'q set \<Rightarrow> 'q set" where
  "eps_close nfa S = (eps_rel nfa)\<^sup>* `` S"

definition symbol_step :: "'q nfa \<Rightarrow> symbol \<Rightarrow> 'q set \<Rightarrow> 'q set" where
  "symbol_step nfa a S = {q'. \<exists>q \<in> S. \<exists>next_states. fmlookup (transitions nfa) (q, a) = Some next_states
                              \<and> q' \<in> set next_states}"

definition subset_delta :: "'q nfa \<Rightarrow> symbol \<Rightarrow> 'q set \<Rightarrow> 'q set" where
  "subset_delta nfa a S = eps_close nfa (symbol_step nfa a S)"

text \<open>
  The closure that the body of \<open>for symbol in alphabet\<close> computes for a subset and a symbol,
  and the quantity that decreases with every pass of the \<open>while\<close> loop: the number of sets of
  NFA states not yet in \<open>subset_to_index\<close>, plus the number of subsets not yet processed.
\<close>

definition target_closure_of :: "'q nfa \<Rightarrow> 'q list \<Rightarrow> symbol \<Rightarrow> 'q list" where
  "target_closure_of nfa subset' symbol =
     (let move_set = move_nfa nfa subset' symbol
      in if move_set \<noteq> [] then epsilon_closure nfa move_set else [])"

definition table_measure :: "'q nfa \<Rightarrow> 'q subset_table \<Rightarrow> nat" where
  "table_measure nfa = (\<lambda>(subset_to_index, subsets, dfa_transitions).
     card (Pow (nfa_targets nfa) - fmdom' subset_to_index) + length subsets)"

text \<open>
  The invariant of the construction, for a set \<open>K\<close> of pairs (index, symbol) that have been
  processed: every subset has its own index in \<open>subset_to_index\<close>, the keys of
  \<open>subset_to_index\<close> are exactly the subsets, the transition recorded for a processed pair
  leads to the subset that the symbol reaches, and only processed pairs have transitions.
\<close>

definition table_inv :: "'q nfa \<Rightarrow> (nat \<times> symbol) set \<Rightarrow> 'q subset_table \<Rightarrow> bool" where
  "table_inv nfa K = (\<lambda>(subset_to_index, subsets, dfa_transitions).
     (\<forall>i < length subsets. fmlookup subset_to_index (set (subsets ! i)) = Some (int i)) \<and>
     fmdom' subset_to_index = set ` set subsets \<and>
     (\<forall>i a. (i, a) \<in> K \<longrightarrow> i < length subsets \<and>
        (\<exists>j < length subsets. fmlookup dfa_transitions (int i, a) = Some (int j)
           \<and> set (subsets ! j) = subset_delta nfa a (set (subsets ! i)))) \<and>
     (\<forall>k v. fmlookup dfa_transitions k = Some v \<longrightarrow> (\<exists>i a. (i, a) \<in> K \<and> k = (int i, a))))"

definition accept_inv :: "'q nfa \<Rightarrow> nat \<Rightarrow> 'q list list \<Rightarrow> int list \<Rightarrow> bool" where
  "accept_inv nfa n subsets dfa_accept_states \<longleftrightarrow>
     set dfa_accept_states = {int i | i. i < n \<and> set (subsets ! i) \<inter> set (accept_states nfa) \<noteq> {}}"

text \<open>The value of the variable \<open>subsets\<close> when the loop of \<open>nfa_to_dfa\<close> has ended.\<close>

definition nfa_to_dfa_subsets :: "'q nfa \<Rightarrow> 'q list list" where
  "nfa_to_dfa_subsets nfa = fst (nfa_to_dfa_run nfa)"

section \<open>Example machines\<close>

text \<open>
  \<open>example_dfa\<close> is the DFA that \<open>nfa_to_dfa\<close> returns for \<open>build_example_nfa\<close>.
  \<open>partial_tm\<close> is a hand-built machine with an incomplete transition table.
  \<open>dead_example_nfa\<close> has no move on \<open>'b'\<close>, so its DFA has a dead state, and the start
  state of \<open>stray_start_nfa\<close> is not in its state list.
\<close>

definition example_dfa :: dfa where
  "example_dfa =
     \<lparr> states = [0, 1, 2], alphabet = [''a'', ''b''], start_state = 0, accept_states = [2],
       transitions = fmap_of_list
         [((0, ''a''), 1), ((0, ''b''), 0), ((1, ''a''), 1), ((1, ''b''), 2),
          ((2, ''a''), 1), ((2, ''b''), 0)] \<rparr>"

definition partial_tm :: tm where
  "partial_tm =
     \<lparr> num_states = 4, tm_start_state = 0, blank = ''_'',
       tm_transitions = fmap_of_list [((0, ''a''), (1, ''a'', ''R''))],
       tm_accept_states = [2], tm_reject_states = [3] \<rparr>"

definition dead_example_nfa :: "int nfa" where
  "dead_example_nfa =
     \<lparr> states = [0, 1], alphabet = [''a'', ''b''], start_state = 0, accept_states = [1],
       transitions = fmap_of_list [((0, ''a''), [1])] \<rparr>"

definition stray_start_nfa :: "int nfa" where
  "stray_start_nfa =
     \<lparr> states = [0, 1], alphabet = [''a''], start_state = 5, accept_states = [1],
       transitions = fmap_of_list [((5, ''a''), [1])] \<rparr>"

section \<open>Properties of the subset construction\<close>

subsection \<open>Sets as lists\<close>

lemma set_add [simp]: "set (add x s) = insert x (set s)"
  by (auto simp: add_def)

lemma set_fold_add [simp]: "set (fold add xs s) = set xs \<union> set s"
  by (induction xs arbitrary: s) auto

subsection \<open>Epsilon closure\<close>

lemma finite_nfa_targets: "finite (nfa_targets nfa)"
  unfolding nfa_targets_def fmran'_alt_def by simp

lemma nfa_targets_lookup:
  "fmlookup (transitions nfa) key = Some next_states \<Longrightarrow> set next_states \<subseteq> nfa_targets nfa"
  unfolding nfa_targets_def by (auto intro: fmran'I)

lemma epsilon_closure_push_Nil [simp]: "epsilon_closure_push [] p = p"
  by (simp add: epsilon_closure_push_def)

lemma epsilon_closure_push_Cons:
  "epsilon_closure_push (nxt # ns) (closure, stack) =
     (if nxt \<notin> set closure then epsilon_closure_push ns (closure @ [nxt], stack @ [nxt])
      else epsilon_closure_push ns (closure, stack))"
  by (simp add: epsilon_closure_push_def)

lemma epsilon_closure_push_measure:
  assumes "set next_states \<subseteq> T" "finite T"
      and "epsilon_closure_push next_states (closure, stack) = (closure', stack')"
  shows "card (T - set closure') + length stack' = card (T - set closure) + length stack"
  using assms(1,3)
proof (induction next_states arbitrary: closure stack)
  case Nil
  then show ?case by simp
next
  case (Cons nxt ns)
  show ?case
  proof (cases "nxt \<in> set closure")
    case True
    with Cons.prems(2) have "epsilon_closure_push ns (closure, stack) = (closure', stack')"
      by (simp add: epsilon_closure_push_Cons)
    from Cons.IH [OF _ this] Cons.prems(1) show ?thesis by simp
  next
    case False
    with Cons.prems(2) have "epsilon_closure_push ns (closure @ [nxt], stack @ [nxt]) = (closure', stack')"
      by (simp add: epsilon_closure_push_Cons)
    from Cons.IH [OF _ this] Cons.prems(1)
    have "card (T - set closure') + length stack' = card (T - set (closure @ [nxt])) + length (stack @ [nxt])"
      by simp
    moreover have in_T: "nxt \<in> T - set closure" using False Cons.prems(1) by simp
    moreover have "T - set (closure @ [nxt]) = (T - set closure) - {nxt}" by auto
    then have "card (T - set (closure @ [nxt])) = card (T - set closure) - 1"
      using in_T by (simp only: card_Diff_singleton)
    moreover have "card (T - set closure) > 0"
      using in_T assms(2) by (metis card_gt_0_iff empty_iff finite_Diff)
    ultimately show ?thesis by simp
  qed
qed

termination epsilon_closure_loop
proof (relation "measure (\<lambda>(nfa, closure, stack). card (nfa_targets nfa - set closure) + length stack)", goal_cases)
  case 1
  show ?case by simp
next
  case (2 nfa closure stack state stack' key)
  then show ?case by (cases stack rule: rev_cases) simp_all
next
  case (3 nfa closure stack state stack' key next_states closure' stack'')
  have sub: "set next_states \<subseteq> nfa_targets nfa"
    using 3(5) by (rule nfa_targets_lookup)
  from 3 have push: "epsilon_closure_push next_states (closure, butlast stack) = (closure', stack'')"
    by simp
  from epsilon_closure_push_measure [OF sub finite_nfa_targets push] 3(1)
  show ?case by (cases stack rule: rev_cases) simp_all
qed

declare epsilon_closure_loop.simps [simp del]

lemma epsilon_closure_push_sets:
  assumes "epsilon_closure_push next_states (closure, stack) = (closure', stack')"
  shows "set closure' = set closure \<union> set next_states
       \<and> set stack' = set stack \<union> (set next_states - set closure)"
  using assms
proof (induction next_states arbitrary: closure stack)
  case Nil
  then show ?case by simp
next
  case (Cons nxt ns)
  show ?case
  proof (cases "nxt \<in> set closure")
    case True
    with Cons.prems have "epsilon_closure_push ns (closure, stack) = (closure', stack')"
      by (simp add: epsilon_closure_push_Cons)
    from Cons.IH [OF this] True show ?thesis by auto
  next
    case False
    with Cons.prems have "epsilon_closure_push ns (closure @ [nxt], stack @ [nxt]) = (closure', stack')"
      by (simp add: epsilon_closure_push_Cons)
    from Cons.IH [OF this] False show ?thesis by auto
  qed
qed

lemma eps_rel_iff:
  "(q, q') \<in> eps_rel nfa \<longleftrightarrow>
     (\<exists>next_states. fmlookup (transitions nfa) (q, ''eps'') = Some next_states \<and> q' \<in> set next_states)"
  by (simp add: eps_rel_def)

lemma eps_close_closed:
  assumes "\<forall>q \<in> S. \<forall>q'. (q, q') \<in> eps_rel nfa \<longrightarrow> q' \<in> S"
  shows "eps_close nfa S = S"
proof -
  have "q' \<in> S" if "(q, q') \<in> (eps_rel nfa)\<^sup>*" "q \<in> S" for q q'
    using that by (induction rule: rtrancl_induct) (use assms in blast)+
  then show ?thesis unfolding eps_close_def by auto
qed

lemma eps_close_absorb:
  assumes "B \<subseteq> eps_close nfa A"
  shows "eps_close nfa (A \<union> B) = eps_close nfa A"
proof -
  have "eps_close nfa B \<subseteq> eps_close nfa A"
    using assms unfolding eps_close_def by (auto intro: rtrancl_trans)
  then show ?thesis unfolding eps_close_def by auto
qed

lemma eps_close_extensive: "S \<subseteq> eps_close nfa S"
  unfolding eps_close_def by auto

lemma eps_close_step:
  "q \<in> eps_close nfa S \<Longrightarrow> (q, q') \<in> eps_rel nfa \<Longrightarrow> q' \<in> eps_close nfa S"
  unfolding eps_close_def by (auto intro: rtrancl_into_rtrancl)

lemma epsilon_closure_loop_Nil: "epsilon_closure_loop nfa closure [] = closure"
  by (subst epsilon_closure_loop.simps) simp

lemma epsilon_closure_loop_snoc:
  "epsilon_closure_loop nfa closure (rest @ [state]) =
     (case fmlookup (transitions nfa) (state, ''eps'') of
        None \<Rightarrow> epsilon_closure_loop nfa closure rest
      | Some next_states \<Rightarrow>
          (case epsilon_closure_push next_states (closure, rest) of
             (closure', stack') \<Rightarrow> epsilon_closure_loop nfa closure' stack'))"
  by (subst epsilon_closure_loop.simps) (simp add: Let_def)

lemma set_epsilon_closure_loop:
  assumes "set stack \<subseteq> set closure"
      and "\<forall>q \<in> set closure. q \<notin> set stack \<longrightarrow> (\<forall>q'. (q, q') \<in> eps_rel nfa \<longrightarrow> q' \<in> set closure)"
  shows "set (epsilon_closure_loop nfa closure stack) = eps_close nfa (set closure)"
  using assms
proof (induction "card (nfa_targets nfa - set closure) + length stack" arbitrary: closure stack
    rule: less_induct)
  case less
  show ?case
  proof (cases stack rule: rev_cases)
    case Nil
    with less.prems show ?thesis
      by (simp add: epsilon_closure_loop_Nil eps_close_closed)
  next
    case (snoc rest state)
    show ?thesis
    proof (cases "fmlookup (transitions nfa) (state, ''eps'')")
      case None
      have succ: "(state, q') \<notin> eps_rel nfa" for q'
        using None by (simp add: eps_rel_iff)
      have "set (epsilon_closure_loop nfa closure rest) = eps_close nfa (set closure)"
      proof (rule less.hyps)
        show "card (nfa_targets nfa - set closure) + length rest
            < card (nfa_targets nfa - set closure) + length stack"
          by (simp add: snoc)
        show "set rest \<subseteq> set closure" using less.prems(1) snoc by simp
        show "\<forall>q\<in>set closure. q \<notin> set rest \<longrightarrow> (\<forall>q'. (q, q') \<in> eps_rel nfa \<longrightarrow> q' \<in> set closure)"
        proof (intro ballI impI allI)
          fix q q'
          assume q: "q \<in> set closure" "q \<notin> set rest" and e: "(q, q') \<in> eps_rel nfa"
          from e succ have "q \<noteq> state" by blast
          with q have "q \<notin> set stack" by (simp add: snoc)
          with less.prems(2) q(1) e show "q' \<in> set closure" by blast
        qed
      qed
      then show ?thesis
        unfolding snoc epsilon_closure_loop_snoc None by simp
    next
      case (Some next_states)
      obtain closure' stack' where push:
        "epsilon_closure_push next_states (closure, rest) = (closure', stack')"
        by (cases "epsilon_closure_push next_states (closure, rest)")
      have sets: "set closure' = set closure \<union> set next_states"
        "set stack' = set rest \<union> (set next_states - set closure)"
        using epsilon_closure_push_sets [OF push] by simp_all
      have succ: "(state, q') \<in> eps_rel nfa \<longleftrightarrow> q' \<in> set next_states" for q'
        using Some by (simp add: eps_rel_iff)
      have "set (epsilon_closure_loop nfa closure' stack') = eps_close nfa (set closure')"
      proof (rule less.hyps)
        show "card (nfa_targets nfa - set closure') + length stack'
            < card (nfa_targets nfa - set closure) + length stack"
          using epsilon_closure_push_measure [OF nfa_targets_lookup [OF Some] finite_nfa_targets push]
          by (simp add: snoc)
        show "set stack' \<subseteq> set closure'"
          using less.prems(1) unfolding sets snoc by auto
        show "\<forall>q\<in>set closure'. q \<notin> set stack' \<longrightarrow> (\<forall>q'. (q, q') \<in> eps_rel nfa \<longrightarrow> q' \<in> set closure')"
        proof (intro ballI impI allI)
          fix q q'
          assume q: "q \<in> set closure'" "q \<notin> set stack'" and e: "(q, q') \<in> eps_rel nfa"
          from q have qc: "q \<in> set closure" "q \<notin> set rest"
            unfolding sets by blast+
          show "q' \<in> set closure'"
          proof (cases "q = state")
            case True
            with e succ show ?thesis unfolding sets by blast
          next
            case False
            with qc have "q \<notin> set stack" by (simp add: snoc)
            with less.prems(2) qc(1) e have "q' \<in> set closure" by blast
            then show ?thesis unfolding sets by blast
          qed
        qed
      qed
      moreover have "eps_close nfa (set closure') = eps_close nfa (set closure)"
      proof -
        have "state \<in> set closure" using less.prems(1) by (simp add: snoc)
        then have st: "state \<in> eps_close nfa (set closure)"
          using eps_close_extensive [of "set closure" nfa] by (rule rev_subsetD)
        have "set next_states \<subseteq> eps_close nfa (set closure)"
        proof
          fix q' assume "q' \<in> set next_states"
          then have "(state, q') \<in> eps_rel nfa" by (simp add: succ)
          with st show "q' \<in> eps_close nfa (set closure)" by (rule eps_close_step)
        qed
        from eps_close_absorb [OF this] show ?thesis unfolding sets by simp
      qed
      ultimately show ?thesis
        unfolding snoc epsilon_closure_loop_snoc Some by (simp add: push)
    qed
  qed
qed

lemma set_epsilon_closure: "set (epsilon_closure nfa state_set) = eps_close nfa (set state_set)"
  unfolding epsilon_closure_def Let_def
  by (subst set_epsilon_closure_loop) simp_all

lemma set_move_nfa_state:
  "set (move_nfa_state nfa symbol state result) =
     set result \<union> (case fmlookup (transitions nfa) (state, symbol) of None \<Rightarrow> {} | Some ns \<Rightarrow> set ns)"
  by (simp add: move_nfa_state_def Un_commute split: option.splits)

lemma symbol_step_insert:
  "symbol_step nfa symbol (insert x S) =
     (case fmlookup (transitions nfa) (x, symbol) of None \<Rightarrow> {} | Some ns \<Rightarrow> set ns)
       \<union> symbol_step nfa symbol S"
  unfolding symbol_step_def by (cases "fmlookup (transitions nfa) (x, symbol)") auto

lemma set_fold_move_nfa_state:
  "set (fold (move_nfa_state nfa symbol) xs result) = set result \<union> symbol_step nfa symbol (set xs)"
proof (induction xs arbitrary: result)
  case Nil
  show ?case by (simp add: symbol_step_def)
next
  case (Cons x xs)
  show ?case
    by (simp only: fold_Cons comp_apply Cons.IH set_move_nfa_state list.set symbol_step_insert Un_assoc)
qed

lemma set_move_nfa: "set (move_nfa nfa state_set symbol) = symbol_step nfa symbol (set state_set)"
  by (simp add: move_nfa_def set_fold_move_nfa_state)

subsection \<open>The main loop terminates\<close>

lemma nfa_to_dfa_symbol_eq:
  "nfa_to_dfa_symbol nfa subset' current_index symbol (subset_to_index, subsets, dfa_transitions) =
     (if set (target_closure_of nfa subset' symbol) \<in> fmdom' subset_to_index then
        (subset_to_index, subsets,
         fmupd (current_index, symbol)
           (the (fmlookup subset_to_index (set (target_closure_of nfa subset' symbol)))) dfa_transitions)
      else
        (fmupd (set (target_closure_of nfa subset' symbol)) (int (length subsets)) subset_to_index,
         subsets @ [target_closure_of nfa subset' symbol],
         fmupd (current_index, symbol) (int (length subsets)) dfa_transitions))"
  by (simp add: nfa_to_dfa_symbol_def target_closure_of_def Let_def)

lemma symbol_step_targets: "symbol_step nfa a S \<subseteq> nfa_targets nfa"
  unfolding symbol_step_def using nfa_targets_lookup by fastforce

lemma eps_close_targets: "eps_close nfa S \<subseteq> S \<union> nfa_targets nfa"
proof
  fix q' assume "q' \<in> eps_close nfa S"
  then obtain q where "q \<in> S" "(q, q') \<in> (eps_rel nfa)\<^sup>*"
    unfolding eps_close_def by auto
  from this(2,1) show "q' \<in> S \<union> nfa_targets nfa"
  proof (induction rule: rtrancl_induct)
    case base
    then show ?case by simp
  next
    case (step y z)
    from step.hyps(2) obtain ns where "fmlookup (transitions nfa) (y, ''eps'') = Some ns" "z \<in> set ns"
      by (auto simp: eps_rel_iff)
    then show ?case using nfa_targets_lookup by fastforce
  qed
qed

lemma eps_close_empty [simp]: "eps_close nfa {} = {}"
  by (simp add: eps_close_def)

lemma set_target_closure_of:
  "set (target_closure_of nfa subset' symbol) = subset_delta nfa symbol (set subset')"
proof (cases "move_nfa nfa subset' symbol = []")
  case True
  then have "symbol_step nfa symbol (set subset') = {}"
    using set_move_nfa [of nfa subset' symbol] by simp
  with True show ?thesis
    by (simp add: target_closure_of_def subset_delta_def)
next
  case False
  then show ?thesis
    by (simp add: target_closure_of_def subset_delta_def set_epsilon_closure set_move_nfa)
qed

lemma subset_delta_targets: "subset_delta nfa a S \<subseteq> nfa_targets nfa"
  unfolding subset_delta_def
  using eps_close_targets [of nfa "symbol_step nfa a S"] symbol_step_targets [of nfa a S] by blast

lemma table_measure_symbol:
  "table_measure nfa (nfa_to_dfa_symbol nfa subset' current_index symbol table) = table_measure nfa table"
proof -
  obtain subset_to_index subsets dfa_transitions where t: "table = (subset_to_index, subsets, dfa_transitions)"
    by (cases table)
  let ?F = "set (target_closure_of nfa subset' symbol)"
  let ?P = "Pow (nfa_targets nfa) - fmdom' subset_to_index"
  show ?thesis
  proof (cases "?F \<in> fmdom' subset_to_index")
    case True
    then show ?thesis by (simp add: t nfa_to_dfa_symbol_eq table_measure_def)
  next
    case False
    have "?F \<in> ?P"
      using False subset_delta_targets [of nfa symbol "set subset'"] by (simp add: set_target_closure_of)
    moreover have fin: "finite ?P" by (simp add: finite_nfa_targets)
    moreover have "Pow (nfa_targets nfa) - insert ?F (fmdom' subset_to_index) = ?P - {?F}" by auto
    ultimately have "card (Pow (nfa_targets nfa) - insert ?F (fmdom' subset_to_index)) + 1 = card ?P"
      by (metis Suc_eq_plus1 card_Suc_Diff1)
    with False show ?thesis
      by (simp add: t nfa_to_dfa_symbol_eq table_measure_def)
  qed
qed

lemma table_measure_fold:
  "table_measure nfa (fold (nfa_to_dfa_symbol nfa subset' current_index) symbols table) = table_measure nfa table"
  by (induction symbols arbitrary: table) (simp_all add: table_measure_symbol)

lemma length_le_table_measure: "length (fst (snd table)) \<le> table_measure nfa table"
  by (cases table) (simp add: table_measure_def)

lemma length_subsets_symbol:
  "length (fst (snd table)) \<le> length (fst (snd (nfa_to_dfa_symbol nfa subset' current_index symbol table)))"
  by (cases table) (simp add: nfa_to_dfa_symbol_eq)

termination nfa_to_dfa_loop
proof (relation "measure (\<lambda>(nfa, index, table, acc). table_measure nfa table - index)", goal_cases)
  case 1
  show ?case by simp
next
  case (2 nfa index table dfa_accept_states subset_to_index rest subsets dfa_transitions subset' current_index table' acc')
  have "table_measure nfa table' = table_measure nfa table"
    using 2 by (simp add: table_measure_fold)
  moreover have "index < table_measure nfa table"
    using 2(1,2,3) length_le_table_measure [of table nfa] by auto
  ultimately show ?case by simp
qed

declare nfa_to_dfa_loop.simps [simp del]

subsection \<open>The invariant of the main loop\<close>

lemma table_inv_index:
  "table_inv nfa K (subset_to_index, subsets, dfa_transitions) \<Longrightarrow> i < length subsets \<Longrightarrow>
     fmlookup subset_to_index (set (subsets ! i)) = Some (int i)"
  by (simp add: table_inv_def)

lemma table_inv_dom:
  "table_inv nfa K (subset_to_index, subsets, dfa_transitions) \<Longrightarrow>
     fmdom' subset_to_index = set ` set subsets"
  by (simp add: table_inv_def)

lemma table_inv_transition:
  assumes "table_inv nfa K (subset_to_index, subsets, dfa_transitions)" "(i, a) \<in> K"
  shows "i < length subsets \<and>
        (\<exists>j < length subsets. fmlookup dfa_transitions (int i, a) = Some (int j)
           \<and> set (subsets ! j) = subset_delta nfa a (set (subsets ! i)))"
proof -
  from assms(1) have "\<forall>i a. (i, a) \<in> K \<longrightarrow> i < length subsets \<and>
        (\<exists>j < length subsets. fmlookup dfa_transitions (int i, a) = Some (int j)
           \<and> set (subsets ! j) = subset_delta nfa a (set (subsets ! i)))"
    unfolding table_inv_def prod.case by (rule conjunct2 [THEN conjunct2, THEN conjunct1])
  from this [rule_format, OF assms(2)] show ?thesis .
qed

lemma table_inv_only:
  assumes "table_inv nfa K (subset_to_index, subsets, dfa_transitions)"
      and "fmlookup dfa_transitions k = Some v"
  shows "\<exists>i a. (i, a) \<in> K \<and> k = (int i, a)"
proof -
  from assms(1) have "\<forall>k v. fmlookup dfa_transitions k = Some v \<longrightarrow> (\<exists>i a. (i, a) \<in> K \<and> k = (int i, a))"
    unfolding table_inv_def prod.case by (rule conjunct2 [THEN conjunct2, THEN conjunct2])
  from this [rule_format, OF assms(2)] show ?thesis .
qed

lemma table_invI:
  assumes "\<And>i. i < length subsets \<Longrightarrow> fmlookup subset_to_index (set (subsets ! i)) = Some (int i)"
      and "fmdom' subset_to_index = set ` set subsets"
      and "\<And>i a. (i, a) \<in> K \<Longrightarrow> i < length subsets \<and>
        (\<exists>j < length subsets. fmlookup dfa_transitions (int i, a) = Some (int j)
           \<and> set (subsets ! j) = subset_delta nfa a (set (subsets ! i)))"
      and "\<And>k v. fmlookup dfa_transitions k = Some v \<Longrightarrow> \<exists>i a. (i, a) \<in> K \<and> k = (int i, a)"
  shows "table_inv nfa K (subset_to_index, subsets, dfa_transitions)"
  unfolding table_inv_def prod.case
proof (intro conjI allI impI)
  fix i assume "i < length subsets"
  then show "fmlookup subset_to_index (set (subsets ! i)) = Some (int i)" by (rule assms(1))
next
  show "fmdom' subset_to_index = set ` set subsets" by (rule assms(2))
next
  fix i a assume "(i, a) \<in> K"
  from assms(3) [OF this] show "i < length subsets" by (rule conjunct1)
next
  fix i a assume "(i, a) \<in> K"
  from assms(3) [OF this] show "\<exists>j < length subsets. fmlookup dfa_transitions (int i, a) = Some (int j)
           \<and> set (subsets ! j) = subset_delta nfa a (set (subsets ! i))" by (rule conjunct2)
next
  fix k v assume "fmlookup dfa_transitions k = Some v"
  then show "\<exists>i a. (i, a) \<in> K \<and> k = (int i, a)" by (rule assms(4))
qed


lemma table_inv_symbol:
  assumes inv: "table_inv nfa K (subset_to_index, subsets, dfa_transitions)"
      and i: "i < length subsets"
  shows "\<exists>subset_to_index' ys dfa_transitions'.
           nfa_to_dfa_symbol nfa (subsets ! i) (int i) a (subset_to_index, subsets, dfa_transitions) =
             (subset_to_index', subsets @ ys, dfa_transitions')
           \<and> table_inv nfa (insert (i, a) K) (subset_to_index', subsets @ ys, dfa_transitions')"
proof -
  let ?tc = "target_closure_of nfa (subsets ! i) a"
  let ?n = "length subsets"
  have F: "set ?tc = subset_delta nfa a (set (subsets ! i))"
    by (rule set_target_closure_of)
  note idx = table_inv_index [OF inv]
  note dom = table_inv_dom [OF inv]
  note tr = table_inv_transition [OF inv]
  note only = table_inv_only [OF inv]
  show ?thesis
  proof (cases "set ?tc \<in> fmdom' subset_to_index")
    case True
    then obtain j where j: "j < ?n" "set (subsets ! j) = set ?tc"
      unfolding dom by (auto simp: in_set_conv_nth)
    have lk: "fmlookup subset_to_index (set ?tc) = Some (int j)"
      using idx [OF j(1)] j(2) by simp
    let ?tr' = "fmupd (int i, a) (int j) dfa_transitions"
    have eq: "nfa_to_dfa_symbol nfa (subsets ! i) (int i) a (subset_to_index, subsets, dfa_transitions) =
        (subset_to_index, subsets @ [], ?tr')"
      using True by (simp add: nfa_to_dfa_symbol_eq lk)
    have "table_inv nfa (insert (i, a) K) (subset_to_index, subsets @ [], ?tr')"
    proof (rule table_invI)
      fix i' assume "i' < length (subsets @ [])"
      then show "fmlookup subset_to_index (set ((subsets @ []) ! i')) = Some (int i')"
        using idx by simp
    next
      show "fmdom' subset_to_index = set ` set (subsets @ [])" using dom by simp
    next
      fix i' a' assume mem: "(i', a') \<in> insert (i, a) K"
      show "i' < length (subsets @ []) \<and> (\<exists>j < length (subsets @ []). fmlookup ?tr' (int i', a') = Some (int j)
           \<and> set ((subsets @ []) ! j) = subset_delta nfa a' (set ((subsets @ []) ! i')))"
      proof (cases "(i', a') = (i, a)")
        case True
        then show ?thesis using i j F by auto
      next
        case False
        with mem have "(i', a') \<in> K" by blast
        from tr [OF this] False show ?thesis by auto
      qed
    next
      fix k v assume "fmlookup ?tr' k = Some v"
      then have "k = (int i, a) \<or> fmlookup dfa_transitions k = Some v"
        by (simp split: if_splits)
      then show "\<exists>i' a'. (i', a') \<in> insert (i, a) K \<and> k = (int i', a')"
      proof
        assume "k = (int i, a)"
        then show ?thesis by blast
      next
        assume "fmlookup dfa_transitions k = Some v"
        from only [OF this] show ?thesis by blast
      qed
    qed
    with eq show ?thesis by blast
  next
    case False
    let ?sti' = "fmupd (set ?tc) (int ?n) subset_to_index"
    let ?subsets' = "subsets @ [?tc]"
    let ?tr' = "fmupd (int i, a) (int ?n) dfa_transitions"
    have eq: "nfa_to_dfa_symbol nfa (subsets ! i) (int i) a (subset_to_index, subsets, dfa_transitions) =
        (?sti', ?subsets', ?tr')"
      using False by (simp add: nfa_to_dfa_symbol_eq)
    have old: "set (subsets ! i') \<noteq> set ?tc" if "i' < ?n" for i'
    proof
      assume "set (subsets ! i') = set ?tc"
      moreover have "set (subsets ! i') \<in> set ` set subsets"
        using that by simp
      ultimately show False using False dom by simp
    qed
    have "table_inv nfa (insert (i, a) K) (?sti', ?subsets', ?tr')"
    proof (rule table_invI)
      fix i' assume "i' < length ?subsets'"
      then consider "i' < ?n" | "i' = ?n" by fastforce
      then show "fmlookup ?sti' (set (?subsets' ! i')) = Some (int i')"
      proof cases
        case 1
        then show ?thesis using old [OF 1] idx [OF 1] by (simp add: nth_append)
      next
        case 2
        then show ?thesis by simp
      qed
    next
      show "fmdom' ?sti' = set ` set ?subsets'"
        using dom by simp
    next
      fix i' a' assume mem: "(i', a') \<in> insert (i, a) K"
      show "i' < length ?subsets' \<and> (\<exists>j < length ?subsets'. fmlookup ?tr' (int i', a') = Some (int j)
           \<and> set (?subsets' ! j) = subset_delta nfa a' (set (?subsets' ! i')))"
      proof (cases "(i', a') = (i, a)")
        case True
        have "?n < length ?subsets' \<and> fmlookup ?tr' (int i, a) = Some (int ?n)
            \<and> set (?subsets' ! ?n) = subset_delta nfa a (set (?subsets' ! i))"
          using i F by (simp add: nth_append)
        with True i show ?thesis by auto
      next
        case False
        with mem have "(i', a') \<in> K" by blast
        from tr [OF this] obtain j where j: "i' < ?n" "j < ?n"
          "fmlookup dfa_transitions (int i', a') = Some (int j)"
          "set (subsets ! j) = subset_delta nfa a' (set (subsets ! i'))"
          by blast
        have "j < length ?subsets' \<and> fmlookup ?tr' (int i', a') = Some (int j)
            \<and> set (?subsets' ! j) = subset_delta nfa a' (set (?subsets' ! i'))"
          using j False by (auto simp: nth_append)
        with j(1) show ?thesis by auto
      qed
    next
      fix k v assume "fmlookup ?tr' k = Some v"
      then have "k = (int i, a) \<or> fmlookup dfa_transitions k = Some v"
        by (simp split: if_splits)
      then show "\<exists>i' a'. (i', a') \<in> insert (i, a) K \<and> k = (int i', a')"
      proof
        assume "k = (int i, a)"
        then show ?thesis by blast
      next
        assume "fmlookup dfa_transitions k = Some v"
        from only [OF this] show ?thesis by blast
      qed
    qed
    with eq show ?thesis by blast
  qed
qed


lemma table_inv_fold:
  assumes "table_inv nfa K (subset_to_index, subsets, dfa_transitions)"
      and "i < length subsets"
  shows "\<exists>subset_to_index' ys dfa_transitions'.
           fold (nfa_to_dfa_symbol nfa (subsets ! i) (int i)) symbols (subset_to_index, subsets, dfa_transitions) =
             (subset_to_index', subsets @ ys, dfa_transitions')
           \<and> table_inv nfa (K \<union> {i} \<times> set symbols) (subset_to_index', subsets @ ys, dfa_transitions')"
  using assms
proof (induction symbols arbitrary: K subset_to_index subsets dfa_transitions)
  case Nil
  then have "table_inv nfa (K \<union> {i} \<times> set []) (subset_to_index, subsets @ [], dfa_transitions)"
    by simp
  then show ?case
    by (intro exI [of _ subset_to_index] exI [of _ "[]"] exI [of _ dfa_transitions]) simp
next
  case (Cons a symbols)
  from table_inv_symbol [OF Cons.prems, of a]
  obtain sti1 ys1 tr1 where
    step: "nfa_to_dfa_symbol nfa (subsets ! i) (int i) a (subset_to_index, subsets, dfa_transitions) =
             (sti1, subsets @ ys1, tr1)"
    and inv1: "table_inv nfa (insert (i, a) K) (sti1, subsets @ ys1, tr1)"
    by blast
  have i1: "i < length (subsets @ ys1)" using Cons.prems(2) by simp
  have same: "(subsets @ ys1) ! i = subsets ! i" using Cons.prems(2) by (simp add: nth_append)
  from Cons.IH [OF inv1 i1]
  obtain sti2 ys2 tr2 where
    rest: "fold (nfa_to_dfa_symbol nfa (subsets ! i) (int i)) symbols (sti1, subsets @ ys1, tr1) =
             (sti2, (subsets @ ys1) @ ys2, tr2)"
    and inv2: "table_inv nfa (insert (i, a) K \<union> {i} \<times> set symbols) (sti2, (subsets @ ys1) @ ys2, tr2)"
    unfolding same by blast
  have K: "insert (i, a) K \<union> {i} \<times> set symbols = K \<union> {i} \<times> set (a # symbols)" by auto
  have "fold (nfa_to_dfa_symbol nfa (subsets ! i) (int i)) (a # symbols) (subset_to_index, subsets, dfa_transitions) =
      (sti2, subsets @ (ys1 @ ys2), tr2)"
    by (simp add: step rest)
  moreover have "table_inv nfa (K \<union> {i} \<times> set (a # symbols)) (sti2, subsets @ (ys1 @ ys2), tr2)"
    using inv2 unfolding K by simp
  ultimately show ?case by blast
qed

lemma nfa_to_dfa_loop_unfold:
  "nfa_to_dfa_loop nfa index (subset_to_index, subsets, dfa_transitions) dfa_accept_states =
     (if index < length subsets then
        nfa_to_dfa_loop nfa (index + 1)
          (fold (nfa_to_dfa_symbol nfa (subsets ! index) (int index)) (alphabet nfa)
             (subset_to_index, subsets, dfa_transitions))
          (if \<exists>s \<in> set (subsets ! index). s \<in> set (accept_states nfa)
           then add (int index) dfa_accept_states else dfa_accept_states)
      else (subsets, dfa_transitions, dfa_accept_states))"
  by (subst nfa_to_dfa_loop.simps) (simp add: Let_def)

lemma accept_inv_step:
  assumes "accept_inv nfa index subsets acc" "index < length subsets"
  shows "accept_inv nfa (Suc index) (subsets @ ys)
           (if \<exists>s \<in> set (subsets ! index). s \<in> set (accept_states nfa) then add (int index) acc else acc)"
proof -
  have nth: "(subsets @ ys) ! i = subsets ! i" if "i < Suc index" for i
    using that assms(2) by (simp add: nth_append)
  have "{int i | i. i < Suc index \<and> set ((subsets @ ys) ! i) \<inter> set (accept_states nfa) \<noteq> {}}
      = {int i | i. i < Suc index \<and> set (subsets ! i) \<inter> set (accept_states nfa) \<noteq> {}}"
    using nth by auto
  also have "\<dots> = {int i | i. i < index \<and> set (subsets ! i) \<inter> set (accept_states nfa) \<noteq> {}}
      \<union> (if set (subsets ! index) \<inter> set (accept_states nfa) \<noteq> {} then {int index} else {})"
    by (auto simp: less_Suc_eq)
  also have "{int i | i. i < index \<and> set (subsets ! i) \<inter> set (accept_states nfa) \<noteq> {}} = set acc"
    using assms(1) by (simp add: accept_inv_def)
  finally have *: "{int i | i. i < Suc index \<and> set ((subsets @ ys) ! i) \<inter> set (accept_states nfa) \<noteq> {}}
      = set acc \<union> (if set (subsets ! index) \<inter> set (accept_states nfa) \<noteq> {} then {int index} else {})" .
  have c: "(\<exists>s \<in> set (subsets ! index). s \<in> set (accept_states nfa))
      \<longleftrightarrow> set (subsets ! index) \<inter> set (accept_states nfa) \<noteq> {}"
    by blast
  show ?thesis
    unfolding accept_inv_def * c by simp
qed

lemma nfa_to_dfa_loop_inv:
  assumes "table_inv nfa ({..<index} \<times> set (alphabet nfa)) (subset_to_index, subsets, dfa_transitions)"
      and "index \<le> length subsets"
      and "accept_inv nfa index subsets acc"
  shows "\<exists>subset_to_index' ys dfa_transitions' acc'.
           nfa_to_dfa_loop nfa index (subset_to_index, subsets, dfa_transitions) acc =
             (subsets @ ys, dfa_transitions', acc')
           \<and> table_inv nfa ({..<length (subsets @ ys)} \<times> set (alphabet nfa))
                (subset_to_index', subsets @ ys, dfa_transitions')
           \<and> accept_inv nfa (length (subsets @ ys)) (subsets @ ys) acc'"
  using assms
proof (induction "table_measure nfa (subset_to_index, subsets, dfa_transitions) - index"
    arbitrary: index subset_to_index subsets dfa_transitions acc rule: less_induct)
  case less
  show ?case
  proof (cases "index < length subsets")
    case False
    with less.prems(2) have idx: "index = length subsets" by simp
    have "nfa_to_dfa_loop nfa index (subset_to_index, subsets, dfa_transitions) acc =
        (subsets @ [], dfa_transitions, acc)"
      using False by (simp add: nfa_to_dfa_loop_unfold)
    moreover have "table_inv nfa ({..<length (subsets @ [])} \<times> set (alphabet nfa))
        (subset_to_index, subsets @ [], dfa_transitions)"
      using less.prems(1) idx by simp
    moreover have "accept_inv nfa (length (subsets @ [])) (subsets @ []) acc"
      using less.prems(3) idx by simp
    ultimately show ?thesis by blast
  next
    case True
    let ?acc1 = "if \<exists>s \<in> set (subsets ! index). s \<in> set (accept_states nfa) then add (int index) acc else acc"
    from table_inv_fold [OF less.prems(1) True, of "alphabet nfa"]
    obtain sti1 ys1 tr1 where
      fold1: "fold (nfa_to_dfa_symbol nfa (subsets ! index) (int index)) (alphabet nfa)
                (subset_to_index, subsets, dfa_transitions) = (sti1, subsets @ ys1, tr1)"
      and inv1: "table_inv nfa ({..<index} \<times> set (alphabet nfa) \<union> {index} \<times> set (alphabet nfa))
                (sti1, subsets @ ys1, tr1)"
      by blast
    have K: "{..<index} \<times> set (alphabet nfa) \<union> {index} \<times> set (alphabet nfa)
        = {..<index + 1} \<times> set (alphabet nfa)"
      by (auto simp: less_Suc_eq)
    have m: "table_measure nfa (sti1, subsets @ ys1, tr1) = table_measure nfa (subset_to_index, subsets, dfa_transitions)"
      using table_measure_fold [of nfa "subsets ! index" "int index" "alphabet nfa"
          "(subset_to_index, subsets, dfa_transitions)"]
      by (simp add: fold1)
    have lt: "index < table_measure nfa (subset_to_index, subsets, dfa_transitions)"
      using True length_le_table_measure [of "(subset_to_index, subsets, dfa_transitions)" nfa] by simp
    have "\<exists>sti2 ys2 tr2 acc2.
           nfa_to_dfa_loop nfa (index + 1) (sti1, subsets @ ys1, tr1) ?acc1 =
             ((subsets @ ys1) @ ys2, tr2, acc2)
           \<and> table_inv nfa ({..<length ((subsets @ ys1) @ ys2)} \<times> set (alphabet nfa))
                (sti2, (subsets @ ys1) @ ys2, tr2)
           \<and> accept_inv nfa (length ((subsets @ ys1) @ ys2)) ((subsets @ ys1) @ ys2) acc2"
    proof (rule less.hyps)
      show "table_measure nfa (sti1, subsets @ ys1, tr1) - (index + 1)
          < table_measure nfa (subset_to_index, subsets, dfa_transitions) - index"
        using m lt by simp
      show "table_inv nfa ({..<index + 1} \<times> set (alphabet nfa)) (sti1, subsets @ ys1, tr1)"
        using inv1 unfolding K .
      show "index + 1 \<le> length (subsets @ ys1)" using True by simp
      show "accept_inv nfa (index + 1) (subsets @ ys1) ?acc1"
        using accept_inv_step [OF less.prems(3) True, of ys1] by simp
    qed
    then obtain sti2 ys2 tr2 acc2 where
      r: "nfa_to_dfa_loop nfa (index + 1) (sti1, subsets @ ys1, tr1) ?acc1 = (subsets @ (ys1 @ ys2), tr2, acc2)"
      and inv2: "table_inv nfa ({..<length (subsets @ (ys1 @ ys2))} \<times> set (alphabet nfa))
                (sti2, subsets @ (ys1 @ ys2), tr2)"
      and acc2: "accept_inv nfa (length (subsets @ (ys1 @ ys2))) (subsets @ (ys1 @ ys2)) acc2"
      unfolding append_assoc by blast
    have "nfa_to_dfa_loop nfa index (subset_to_index, subsets, dfa_transitions) acc =
        (subsets @ (ys1 @ ys2), tr2, acc2)"
      using True by (subst nfa_to_dfa_loop_unfold) (simp only: if_True fold1 r)
    with inv2 acc2 show ?thesis by blast
  qed
qed

subsection \<open>The result of the construction\<close>

lemma nfa_to_dfa_run_inv:
  obtains subset_to_index subsets dfa_transitions acc where
    "nfa_to_dfa_run nfa = (subsets, dfa_transitions, acc)"
    "subsets \<noteq> []"
    "set (subsets ! 0) = eps_close nfa {start_state nfa}"
    "table_inv nfa ({..<length subsets} \<times> set (alphabet nfa)) (subset_to_index, subsets, dfa_transitions)"
    "accept_inv nfa (length subsets) subsets acc"
proof -
  let ?sc = "epsilon_closure nfa [start_state nfa]"
  have "table_inv nfa ({..<0} \<times> set (alphabet nfa)) (fmupd (set ?sc) 0 fmempty, [?sc], fmempty)"
    by (rule table_invI) simp_all
  moreover have "0 \<le> length [?sc]" by simp
  moreover have "accept_inv nfa 0 [?sc] []" by (simp add: accept_inv_def)
  ultimately obtain sti ys tr acc where
    r: "nfa_to_dfa_loop nfa 0 (fmupd (set ?sc) 0 fmempty, [?sc], fmempty) [] = ([?sc] @ ys, tr, acc)"
    and inv: "table_inv nfa ({..<length ([?sc] @ ys)} \<times> set (alphabet nfa)) (sti, [?sc] @ ys, tr)"
    and acc: "accept_inv nfa (length ([?sc] @ ys)) ([?sc] @ ys) acc"
    using nfa_to_dfa_loop_inv [of nfa 0 "fmupd (set ?sc) 0 fmempty" "[?sc]" fmempty "[]"] by blast
  show thesis
  proof (rule that [of "[?sc] @ ys" tr acc sti])
    show "nfa_to_dfa_run nfa = ([?sc] @ ys, tr, acc)"
      by (simp add: nfa_to_dfa_run_def Let_def r [simplified])
    show "[?sc] @ ys \<noteq> []" by simp
    show "set (([?sc] @ ys) ! 0) = eps_close nfa {start_state nfa}"
      by (simp add: set_epsilon_closure)
    show "table_inv nfa ({..<length ([?sc] @ ys)} \<times> set (alphabet nfa)) (sti, [?sc] @ ys, tr)"
      by (rule inv)
    show "accept_inv nfa (length ([?sc] @ ys)) ([?sc] @ ys) acc" by (rule acc)
  qed
qed

lemma nfa_to_dfa_fields:
  "states (nfa_to_dfa nfa) = map int [0 ..< length (nfa_to_dfa_subsets nfa)]"
  "alphabet (nfa_to_dfa nfa) = alphabet nfa"
  "start_state (nfa_to_dfa nfa) = 0"
  by (simp_all add: nfa_to_dfa_def nfa_to_dfa_subsets_def split: prod.splits)

lemma nfa_to_dfa_start:
  "nfa_to_dfa_subsets nfa \<noteq> [] \<and> set (nfa_to_dfa_subsets nfa ! 0) = eps_close nfa {start_state nfa}"
  by (rule nfa_to_dfa_run_inv [of nfa]) (simp add: nfa_to_dfa_subsets_def)

lemma nfa_to_dfa_transition:
  assumes "i < length (nfa_to_dfa_subsets nfa)" "a \<in> set (alphabet nfa)"
  shows "\<exists>j < length (nfa_to_dfa_subsets nfa).
           fmlookup (transitions (nfa_to_dfa nfa)) (int i, a) = Some (int j)
           \<and> set (nfa_to_dfa_subsets nfa ! j) = subset_delta nfa a (set (nfa_to_dfa_subsets nfa ! i))"
proof (rule nfa_to_dfa_run_inv [of nfa])
  fix sti subsets tr acc
  assume r: "nfa_to_dfa_run nfa = (subsets, tr, acc)"
    and inv: "table_inv nfa ({..<length subsets} \<times> set (alphabet nfa)) (sti, subsets, tr)"
  have s: "nfa_to_dfa_subsets nfa = subsets" "transitions (nfa_to_dfa nfa) = tr"
    by (simp_all add: nfa_to_dfa_subsets_def nfa_to_dfa_def r)
  have "(i, a) \<in> {..<length subsets} \<times> set (alphabet nfa)"
    using assms by (simp add: s)
  from table_inv_transition [OF inv this] show ?thesis
    unfolding s by (rule conjunct2)
qed

lemma nfa_to_dfa_only:
  assumes "fmlookup (transitions (nfa_to_dfa nfa)) k = Some v"
  shows "\<exists>i a j. i < length (nfa_to_dfa_subsets nfa) \<and> a \<in> set (alphabet nfa) \<and> k = (int i, a)
           \<and> j < length (nfa_to_dfa_subsets nfa) \<and> v = int j"
proof (rule nfa_to_dfa_run_inv [of nfa])
  fix sti subsets tr acc
  assume r: "nfa_to_dfa_run nfa = (subsets, tr, acc)"
    and inv: "table_inv nfa ({..<length subsets} \<times> set (alphabet nfa)) (sti, subsets, tr)"
  have s: "nfa_to_dfa_subsets nfa = subsets" "transitions (nfa_to_dfa nfa) = tr"
    by (simp_all add: nfa_to_dfa_subsets_def nfa_to_dfa_def r)
  from assms have "fmlookup tr k = Some v" by (simp add: s)
  from table_inv_only [OF inv this] obtain i a where
    ia: "(i, a) \<in> {..<length subsets} \<times> set (alphabet nfa)" "k = (int i, a)"
    by blast
  from table_inv_transition [OF inv ia(1)] obtain j where
    "j < length subsets" "fmlookup tr (int i, a) = Some (int j)"
    by blast
  with ia \<open>fmlookup tr k = Some v\<close> show ?thesis
    unfolding s by auto
qed

lemma nfa_to_dfa_accept:
  assumes "j < length (nfa_to_dfa_subsets nfa)"
  shows "int j \<in> set (accept_states (nfa_to_dfa nfa)) \<longleftrightarrow>
           set (nfa_to_dfa_subsets nfa ! j) \<inter> set (accept_states nfa) \<noteq> {}"
proof (rule nfa_to_dfa_run_inv [of nfa])
  fix sti subsets tr acc
  assume r: "nfa_to_dfa_run nfa = (subsets, tr, acc)"
    and acc: "accept_inv nfa (length subsets) subsets acc"
  have s: "nfa_to_dfa_subsets nfa = subsets" "accept_states (nfa_to_dfa nfa) = sort acc"
    by (simp_all add: nfa_to_dfa_subsets_def nfa_to_dfa_def r)
  have "int j \<in> set acc \<longleftrightarrow> set (subsets ! j) \<inter> set (accept_states nfa) \<noteq> {}"
    using acc assms unfolding accept_inv_def s by auto
  then show ?thesis unfolding s by simp
qed

lemma nfa_to_dfa_accept_range:
  assumes "q \<in> set (accept_states (nfa_to_dfa nfa))"
  shows "\<exists>j < length (nfa_to_dfa_subsets nfa). q = int j"
proof (rule nfa_to_dfa_run_inv [of nfa])
  fix sti subsets tr acc
  assume r: "nfa_to_dfa_run nfa = (subsets, tr, acc)"
    and acc: "accept_inv nfa (length subsets) subsets acc"
  have s: "nfa_to_dfa_subsets nfa = subsets" "accept_states (nfa_to_dfa nfa) = sort acc"
    by (simp_all add: nfa_to_dfa_subsets_def nfa_to_dfa_def r)
  from assms have "q \<in> set acc" by (simp add: s)
  then show ?thesis using acc unfolding accept_inv_def s by auto
qed

lemma nfa_to_dfa_distinct:
  assumes "i < length (nfa_to_dfa_subsets nfa)" "j < length (nfa_to_dfa_subsets nfa)"
      and "set (nfa_to_dfa_subsets nfa ! i) = set (nfa_to_dfa_subsets nfa ! j)"
  shows "i = j"
proof (rule nfa_to_dfa_run_inv [of nfa])
  fix sti subsets tr acc
  assume r: "nfa_to_dfa_run nfa = (subsets, tr, acc)"
    and inv: "table_inv nfa ({..<length subsets} \<times> set (alphabet nfa)) (sti, subsets, tr)"
  have s: "nfa_to_dfa_subsets nfa = subsets"
    by (simp add: nfa_to_dfa_subsets_def r)
  have "fmlookup sti (set (subsets ! i)) = Some (int i)"
    using assms(1) unfolding s by (rule table_inv_index [OF inv])
  moreover have "fmlookup sti (set (subsets ! j)) = Some (int j)"
    using assms(2) unfolding s by (rule table_inv_index [OF inv])
  moreover have "set (subsets ! i) = set (subsets ! j)"
    using assms(3) unfolding s .
  ultimately have "Some (int i) = Some (int j)" by (simp only:)
  then show ?thesis by simp
qed

lemma dfa_wf_nfa_to_dfa: "dfa_wf (nfa_to_dfa nfa)"
  unfolding dfa_wf_def
proof (intro conjI allI impI)
  show "states (nfa_to_dfa nfa) = map int [0..<length (states (nfa_to_dfa nfa))]"
    by (simp add: nfa_to_dfa_fields)
  show "start_state (nfa_to_dfa nfa) \<in> set (states (nfa_to_dfa nfa))"
    using nfa_to_dfa_start [of nfa] by (simp add: nfa_to_dfa_fields)
  fix k t assume "fmlookup (transitions (nfa_to_dfa nfa)) k = Some t"
  from nfa_to_dfa_only [OF this] show "t \<in> set (states (nfa_to_dfa nfa))"
    by (auto simp: nfa_to_dfa_fields)
qed

lemma example_dfa_is_determinized: "nfa_to_dfa build_example_nfa = example_dfa"
  by code_simp

subsection \<open>The language of the NFA on the level of sets\<close>

lemma nfa_reach_eps_prefix:
  assumes "(q, q') \<in> (eps_rel nfa)\<^sup>*" "nfa_reach nfa q' w q''"
  shows "nfa_reach nfa q w q''"
  using assms
proof (induction rule: converse_rtrancl_induct)
  case base
  then show ?case .
next
  case (step y z)
  from step.hyps(1) obtain ns where "fmlookup (transitions nfa) (y, ''eps'') = Some ns" "z \<in> set ns"
    unfolding eps_rel_iff by blast
  then show ?case using step.IH [OF step.prems] by (rule reach_eps)
qed

lemma nfa_reach_Nil:
  assumes "nfa_reach nfa q w q'" "w = []"
  shows "(q, q') \<in> (eps_rel nfa)\<^sup>*"
  using assms
proof (induction rule: nfa_reach.induct)
  case (reach_refl q)
  show ?case by simp
next
  case (reach_eps q next_states q' w q'')
  have "(q, q') \<in> eps_rel nfa"
    unfolding eps_rel_iff using reach_eps.hyps(1,2) by blast
  then show ?case
    using reach_eps.IH [OF reach_eps.prems] by (rule converse_rtrancl_into_rtrancl)
next
  case (reach_symbol q a next_states q' w q'')
  then show ?case by simp
qed

lemma nfa_reach_Cons:
  assumes "nfa_reach nfa q w' q''" "w' = a # w"
  shows "\<exists>p next_states p'. (q, p) \<in> (eps_rel nfa)\<^sup>*
           \<and> fmlookup (transitions nfa) (p, a) = Some next_states \<and> p' \<in> set next_states
           \<and> nfa_reach nfa p' w q''"
  using assms
proof (induction rule: nfa_reach.induct)
  case (reach_refl q)
  then show ?case by simp
next
  case (reach_eps q next_states q' w' q'')
  from reach_eps.IH [OF reach_eps.prems] obtain p ns p' where
    p: "(q', p) \<in> (eps_rel nfa)\<^sup>*" "fmlookup (transitions nfa) (p, a) = Some ns" "p' \<in> set ns"
       "nfa_reach nfa p' w q''"
    by blast
  have "(q, q') \<in> eps_rel nfa"
    unfolding eps_rel_iff using reach_eps.hyps(1,2) by blast
  then have "(q, p) \<in> (eps_rel nfa)\<^sup>*"
    using p(1) by (rule converse_rtrancl_into_rtrancl)
  with p(2,3,4) show ?case by blast
next
  case (reach_symbol q b next_states q' w' q'')
  from reach_symbol.prems have eq: "b = a" "w' = w" by simp_all
  have "(q, q) \<in> (eps_rel nfa)\<^sup>*" by simp
  with reach_symbol.hyps(1,2,3) show ?case unfolding eq by blast
qed

lemma eps_close_idem: "eps_close nfa (eps_close nfa S) = eps_close nfa S"
  unfolding eps_close_def by (auto intro: rtrancl_trans)

lemma subset_delta_closed: "eps_close nfa (subset_delta nfa a S) = subset_delta nfa a S"
  by (simp add: subset_delta_def eps_close_idem)

lemma nfa_reach_fold:
  assumes "eps_close nfa S = S"
  shows "{q'. \<exists>q \<in> S. nfa_reach nfa q w q'} = fold (subset_delta nfa) w S"
  using assms
proof (induction w arbitrary: S)
  case Nil
  have "q' \<in> S" if "q \<in> S" "nfa_reach nfa q [] q'" for q q'
  proof -
    from that(2) have "(q, q') \<in> (eps_rel nfa)\<^sup>*" by (rule nfa_reach_Nil) simp
    with that(1) have "q' \<in> eps_close nfa S" unfolding eps_close_def by blast
    then show ?thesis by (simp only: Nil.prems)
  qed
  moreover have "\<exists>q \<in> S. nfa_reach nfa q [] q'" if "q' \<in> S" for q'
    using that reach_refl [of nfa q'] by blast
  ultimately show ?case by auto
next
  case (Cons a w)
  let ?D = "subset_delta nfa a S"
  have ih: "{q'. \<exists>q \<in> ?D. nfa_reach nfa q w q'} = fold (subset_delta nfa) w ?D"
    by (rule Cons.IH) (rule subset_delta_closed)
  have "\<exists>p \<in> ?D. nfa_reach nfa p w q''" if "q \<in> S" "nfa_reach nfa q (a # w) q''" for q q''
  proof -
    from nfa_reach_Cons [OF that(2) refl] obtain p ns p' where
      p: "(q, p) \<in> (eps_rel nfa)\<^sup>*" "fmlookup (transitions nfa) (p, a) = Some ns" "p' \<in> set ns"
         "nfa_reach nfa p' w q''"
      by blast
    from p(1) that(1) have "p \<in> eps_close nfa S" unfolding eps_close_def by blast
    then have "p \<in> S" by (simp only: Cons.prems)
    with p(2,3) have "p' \<in> symbol_step nfa a S" unfolding symbol_step_def by blast
    then have "p' \<in> ?D"
      unfolding subset_delta_def using eps_close_extensive [of "symbol_step nfa a S" nfa] by blast
    with p(4) show ?thesis by blast
  qed
  moreover have "\<exists>q \<in> S. nfa_reach nfa q (a # w) q''" if "p \<in> ?D" "nfa_reach nfa p w q''" for p q''
  proof -
    from that(1) obtain p' where p': "p' \<in> symbol_step nfa a S" "(p', p) \<in> (eps_rel nfa)\<^sup>*"
      unfolding subset_delta_def eps_close_def by blast
    from p'(1) obtain q ns where q: "q \<in> S" "fmlookup (transitions nfa) (q, a) = Some ns" "p' \<in> set ns"
      unfolding symbol_step_def by blast
    from p'(2) that(2) have "nfa_reach nfa p' w q''" by (rule nfa_reach_eps_prefix)
    with q(2,3) have "nfa_reach nfa q (a # w) q''" by (rule reach_symbol)
    with q(1) show ?thesis by blast
  qed
  ultimately have "{q''. \<exists>q \<in> S. nfa_reach nfa q (a # w) q''} = {q'. \<exists>q \<in> ?D. nfa_reach nfa q w q'}"
    by blast
  with ih show ?case by simp
qed

lemma nfa_accepts_fold:
  "nfa_accepts nfa w \<longleftrightarrow>
     fold (subset_delta nfa) w (eps_close nfa {start_state nfa}) \<inter> set (accept_states nfa) \<noteq> {}"
proof -
  let ?S = "eps_close nfa {start_state nfa}"
  have "nfa_reach nfa (start_state nfa) w q \<longleftrightarrow> (\<exists>q0 \<in> ?S. nfa_reach nfa q0 w q)" for q
  proof
    assume "nfa_reach nfa (start_state nfa) w q"
    moreover have "start_state nfa \<in> ?S" unfolding eps_close_def by blast
    ultimately show "\<exists>q0 \<in> ?S. nfa_reach nfa q0 w q" by blast
  next
    assume "\<exists>q0 \<in> ?S. nfa_reach nfa q0 w q"
    then obtain q0 where "(start_state nfa, q0) \<in> (eps_rel nfa)\<^sup>*" "nfa_reach nfa q0 w q"
      unfolding eps_close_def by blast
    then show "nfa_reach nfa (start_state nfa) w q" by (rule nfa_reach_eps_prefix)
  qed
  then have "nfa_accepts nfa w \<longleftrightarrow> {q'. \<exists>q \<in> ?S. nfa_reach nfa q w q'} \<inter> set (accept_states nfa) \<noteq> {}"
    unfolding nfa_accepts_def by blast
  also have "{q'. \<exists>q \<in> ?S. nfa_reach nfa q w q'} = fold (subset_delta nfa) w ?S"
    by (rule nfa_reach_fold) (rule eps_close_idem)
  finally show ?thesis .
qed

subsection \<open>The run of the DFA follows the subsets\<close>

lemma dfa_run_nfa_to_dfa:
  assumes "i < length (nfa_to_dfa_subsets nfa)" "set w \<subseteq> set (alphabet nfa)"
  shows "\<exists>j < length (nfa_to_dfa_subsets nfa).
           dfa_run (nfa_to_dfa nfa) (int i) w = Some (int j)
           \<and> set (nfa_to_dfa_subsets nfa ! j) = fold (subset_delta nfa) w (set (nfa_to_dfa_subsets nfa ! i))"
  using assms
proof (induction w arbitrary: i)
  case Nil
  then show ?case by simp
next
  case (Cons a w)
  from Cons.prems(2) have a: "a \<in> set (alphabet nfa)" and w: "set w \<subseteq> set (alphabet nfa)"
    by simp_all
  from nfa_to_dfa_transition [OF Cons.prems(1) a] obtain k where
    k: "k < length (nfa_to_dfa_subsets nfa)"
       "fmlookup (transitions (nfa_to_dfa nfa)) (int i, a) = Some (int k)"
       "set (nfa_to_dfa_subsets nfa ! k) = subset_delta nfa a (set (nfa_to_dfa_subsets nfa ! i))"
    by blast
  from Cons.IH [OF k(1) w] obtain j where
    j: "j < length (nfa_to_dfa_subsets nfa)" "dfa_run (nfa_to_dfa nfa) (int k) w = Some (int j)"
       "set (nfa_to_dfa_subsets nfa ! j) = fold (subset_delta nfa) w (set (nfa_to_dfa_subsets nfa ! k))"
    by blast
  have "dfa_run (nfa_to_dfa nfa) (int i) (a # w) = Some (int j)"
    using a k(2) j(2) by (simp add: nfa_to_dfa_fields)
  moreover have "set (nfa_to_dfa_subsets nfa ! j) =
      fold (subset_delta nfa) (a # w) (set (nfa_to_dfa_subsets nfa ! i))"
    using j(3) k(3) by simp
  ultimately show ?case using j(1) by blast
qed

text \<open>
  Claim C2. For every NFA and every finite input string over its alphabet, the DFA that
  \<open>nfa_to_dfa\<close> returns accepts the string if and only if the NFA accepts it.
\<close>

theorem nfa_to_dfa_language:
  assumes "set w \<subseteq> set (alphabet nfa)"
  shows "dfa_accepts (nfa_to_dfa nfa) w \<longleftrightarrow> nfa_accepts nfa w"
proof -
  have pos: "0 < length (nfa_to_dfa_subsets nfa)"
    and start: "set (nfa_to_dfa_subsets nfa ! 0) = eps_close nfa {start_state nfa}"
    using nfa_to_dfa_start [of nfa] by simp_all
  from dfa_run_nfa_to_dfa [OF pos assms] obtain j where
    j: "j < length (nfa_to_dfa_subsets nfa)" "dfa_run (nfa_to_dfa nfa) (int 0) w = Some (int j)"
       "set (nfa_to_dfa_subsets nfa ! j) = fold (subset_delta nfa) w (set (nfa_to_dfa_subsets nfa ! 0))"
    by blast
  have "dfa_accepts (nfa_to_dfa nfa) w \<longleftrightarrow> int j \<in> set (accept_states (nfa_to_dfa nfa))"
    using j(2) by (simp add: dfa_accepts_def nfa_to_dfa_fields)
  also have "\<dots> \<longleftrightarrow> set (nfa_to_dfa_subsets nfa ! j) \<inter> set (accept_states nfa) \<noteq> {}"
    by (rule nfa_to_dfa_accept [OF j(1)])
  also have "\<dots> \<longleftrightarrow> nfa_accepts nfa w"
    unfolding j(3) start nfa_accepts_fold ..
  finally show ?thesis .
qed

theorem nfa_to_dfa_language_witness:
  "set [''a'', ''b''] \<subseteq> set (alphabet build_example_nfa)
   \<and> dfa_accepts (nfa_to_dfa build_example_nfa) [''a'', ''b'']
   \<and> nfa_accepts build_example_nfa [''a'', ''b'']"
proof -
  have h: "set [''a'', ''b''] \<subseteq> set (alphabet build_example_nfa)"
    by (simp add: build_example_nfa_def)
  have d: "dfa_accepts (nfa_to_dfa build_example_nfa) [''a'', ''b'']"
    by code_simp
  from nfa_to_dfa_language [OF h] h d show ?thesis by simp
qed

subsection \<open>Totality of the DFA and the dead state\<close>

text \<open>
  Claim C5. For every NFA, the transition mapping of the DFA that \<open>nfa_to_dfa\<close> returns is a
  total function on the DFA's states and alphabet: every state and every symbol have exactly
  one target, and the target is a state of the DFA.
\<close>

theorem nfa_to_dfa_total:
  "\<forall>q \<in> set (states (nfa_to_dfa nfa)). \<forall>a \<in> set (alphabet (nfa_to_dfa nfa)).
     \<exists>!q'. fmlookup (transitions (nfa_to_dfa nfa)) (q, a) = Some q' \<and> q' \<in> set (states (nfa_to_dfa nfa))"
proof (intro ballI)
  fix q a
  assume "q \<in> set (states (nfa_to_dfa nfa))" and a: "a \<in> set (alphabet (nfa_to_dfa nfa))"
  then obtain i where i: "i < length (nfa_to_dfa_subsets nfa)" "q = int i"
    by (auto simp: nfa_to_dfa_fields)
  from a have "a \<in> set (alphabet nfa)" by (simp add: nfa_to_dfa_fields)
  from nfa_to_dfa_transition [OF i(1) this] obtain j where
    "j < length (nfa_to_dfa_subsets nfa)" "fmlookup (transitions (nfa_to_dfa nfa)) (int i, a) = Some (int j)"
    by blast
  then have "fmlookup (transitions (nfa_to_dfa nfa)) (q, a) = Some (int j) \<and> int j \<in> set (states (nfa_to_dfa nfa))"
    by (simp add: i(2) nfa_to_dfa_fields)
  then show "\<exists>!q'. fmlookup (transitions (nfa_to_dfa nfa)) (q, a) = Some q' \<and> q' \<in> set (states (nfa_to_dfa nfa))"
    by (intro ex1I [of _ "int j"]) simp_all
qed

theorem nfa_to_dfa_total_witness:
  "(1::int) \<in> set (states (nfa_to_dfa build_example_nfa))
   \<and> ''b'' \<in> set (alphabet (nfa_to_dfa build_example_nfa))
   \<and> (\<exists>!q'. fmlookup (transitions (nfa_to_dfa build_example_nfa)) (1, ''b'') = Some q'
           \<and> q' \<in> set (states (nfa_to_dfa build_example_nfa)))"
proof -
  have h1: "(1::int) \<in> set (states (nfa_to_dfa build_example_nfa))" by code_simp
  have h2: "''b'' \<in> set (alphabet (nfa_to_dfa build_example_nfa))" by code_simp
  from nfa_to_dfa_total [of build_example_nfa, THEN bspec, OF h1, THEN bspec, OF h2] h1 h2
  show ?thesis by simp
qed

lemma subset_delta_empty: "subset_delta nfa a {} = {}"
  by (simp add: subset_delta_def symbol_step_def)

text \<open>
  Claim C8. If the empty subset is discovered while \<open>nfa_to_dfa\<close> runs, that is if it is the
  entry \<open>i\<close> of \<open>subsets\<close>, then no other entry of \<open>subsets\<close> is empty, the DFA state \<open>i\<close>
  is not accepting, and on every symbol of the alphabet the transition of state \<open>i\<close> leads
  back to \<open>i\<close>.
\<close>

theorem empty_subset_dead_state:
  assumes "i < length (nfa_to_dfa_subsets nfa)" "set (nfa_to_dfa_subsets nfa ! i) = {}"
  shows "(\<forall>j < length (nfa_to_dfa_subsets nfa). set (nfa_to_dfa_subsets nfa ! j) = {} \<longrightarrow> j = i)
       \<and> int i \<in> set (states (nfa_to_dfa nfa))
       \<and> int i \<notin> set (accept_states (nfa_to_dfa nfa))
       \<and> (\<forall>a \<in> set (alphabet (nfa_to_dfa nfa)).
            fmlookup (transitions (nfa_to_dfa nfa)) (int i, a) = Some (int i))"
proof (intro conjI allI impI ballI)
  fix j assume "j < length (nfa_to_dfa_subsets nfa)" "set (nfa_to_dfa_subsets nfa ! j) = {}"
  then show "j = i"
    using nfa_to_dfa_distinct [of j nfa i] assms by simp
next
  show "int i \<in> set (states (nfa_to_dfa nfa))"
    using assms(1) by (simp add: nfa_to_dfa_fields)
next
  show "int i \<notin> set (accept_states (nfa_to_dfa nfa))"
    using nfa_to_dfa_accept [OF assms(1)] assms(2) by simp
next
  fix a assume "a \<in> set (alphabet (nfa_to_dfa nfa))"
  then have "a \<in> set (alphabet nfa)" by (simp add: nfa_to_dfa_fields)
  from nfa_to_dfa_transition [OF assms(1) this] obtain j where
    j: "j < length (nfa_to_dfa_subsets nfa)" "fmlookup (transitions (nfa_to_dfa nfa)) (int i, a) = Some (int j)"
       "set (nfa_to_dfa_subsets nfa ! j) = subset_delta nfa a (set (nfa_to_dfa_subsets nfa ! i))"
    by blast
  from j(3) have "set (nfa_to_dfa_subsets nfa ! j) = set (nfa_to_dfa_subsets nfa ! i)"
    by (simp only: assms(2) subset_delta_empty)
  from nfa_to_dfa_distinct [OF j(1) assms(1) this] j(2)
  show "fmlookup (transitions (nfa_to_dfa nfa)) (int i, a) = Some (int i)" by simp
qed

theorem empty_subset_dead_state_witness:
  "nfa_to_dfa_subsets dead_example_nfa = [[0], [1], []]
   \<and> (2::int) \<in> set (states (nfa_to_dfa dead_example_nfa))
   \<and> (2::int) \<notin> set (accept_states (nfa_to_dfa dead_example_nfa))
   \<and> fmlookup (transitions (nfa_to_dfa dead_example_nfa)) (2, ''a'') = Some 2
   \<and> fmlookup (transitions (nfa_to_dfa dead_example_nfa)) (2, ''b'') = Some 2"
proof -
  have s: "nfa_to_dfa_subsets dead_example_nfa = [[0], [1], []]" by code_simp
  have al: "alphabet (nfa_to_dfa dead_example_nfa) = [''a'', ''b'']" by code_simp
  have h1: "2 < length (nfa_to_dfa_subsets dead_example_nfa)" by (simp add: s)
  have h2: "set (nfa_to_dfa_subsets dead_example_nfa ! 2) = {}" by (simp add: s)
  from empty_subset_dead_state [OF h1 h2] s show ?thesis by (simp add: al)
qed

subsection \<open>The construction does not read the state list\<close>

lemma epsilon_closure_loop_cong:
  assumes "transitions nfa' = transitions nfa"
  shows "epsilon_closure_loop nfa' closure stack = epsilon_closure_loop nfa closure stack"
proof (induction "card (nfa_targets nfa - set closure) + length stack" arbitrary: closure stack
    rule: less_induct)
  case less
  show ?case
  proof (cases stack rule: rev_cases)
    case Nil
    then show ?thesis by (simp add: epsilon_closure_loop_Nil)
  next
    case (snoc rest state)
    show ?thesis
    proof (cases "fmlookup (transitions nfa) (state, ''eps'')")
      case None
      have "epsilon_closure_loop nfa' closure rest = epsilon_closure_loop nfa closure rest"
        by (rule less.hyps) (simp add: snoc)
      then show ?thesis
        unfolding snoc epsilon_closure_loop_snoc assms None by simp
    next
      case (Some next_states)
      obtain closure' stack' where push:
        "epsilon_closure_push next_states (closure, rest) = (closure', stack')"
        by (cases "epsilon_closure_push next_states (closure, rest)")
      have "epsilon_closure_loop nfa' closure' stack' = epsilon_closure_loop nfa closure' stack'"
      proof (rule less.hyps)
        show "card (nfa_targets nfa - set closure') + length stack'
            < card (nfa_targets nfa - set closure) + length stack"
          using epsilon_closure_push_measure [OF nfa_targets_lookup [OF Some] finite_nfa_targets push]
          by (simp add: snoc)
      qed
      then show ?thesis
        unfolding snoc epsilon_closure_loop_snoc assms Some by (simp add: push)
    qed
  qed
qed

lemma target_closure_of_cong:
  assumes "transitions nfa' = transitions nfa"
  shows "target_closure_of nfa' = target_closure_of nfa"
proof -
  have m: "move_nfa nfa' = move_nfa nfa"
    by (intro ext) (simp add: move_nfa_def move_nfa_state_def [abs_def] assms)
  have e: "epsilon_closure nfa' = epsilon_closure nfa"
    by (intro ext) (simp add: epsilon_closure_def epsilon_closure_loop_cong [OF assms])
  show ?thesis
    by (intro ext) (simp add: target_closure_of_def Let_def m e)
qed

lemma nfa_to_dfa_symbol_cong:
  assumes "transitions nfa' = transitions nfa"
  shows "nfa_to_dfa_symbol nfa' = nfa_to_dfa_symbol nfa"
proof (intro ext)
  fix subset' current_index symbol and table :: "'a subset_table"
  obtain subset_to_index subsets dfa_transitions where t: "table = (subset_to_index, subsets, dfa_transitions)"
    by (cases table)
  show "nfa_to_dfa_symbol nfa' subset' current_index symbol table =
      nfa_to_dfa_symbol nfa subset' current_index symbol table"
    unfolding t nfa_to_dfa_symbol_eq target_closure_of_cong [OF assms] ..
qed

lemma nfa_to_dfa_loop_cong:
  assumes "transitions nfa' = transitions nfa" "alphabet nfa' = alphabet nfa"
      and "accept_states nfa' = accept_states nfa"
  shows "nfa_to_dfa_loop nfa' index table acc = nfa_to_dfa_loop nfa index table acc"
proof (induction "table_measure nfa table - index" arbitrary: index table acc rule: less_induct)
  case less
  obtain subset_to_index subsets dfa_transitions where t: "table = (subset_to_index, subsets, dfa_transitions)"
    by (cases table)
  show ?case
  proof (cases "index < length subsets")
    case False
    then show ?thesis unfolding t by (simp add: nfa_to_dfa_loop_unfold)
  next
    case True
    let ?table1 = "fold (nfa_to_dfa_symbol nfa (subsets ! index) (int index)) (alphabet nfa) table"
    let ?acc1 = "if \<exists>s \<in> set (subsets ! index). s \<in> set (accept_states nfa) then add (int index) acc else acc"
    have "index < table_measure nfa table"
      using True length_le_table_measure [of table nfa] by (simp add: t)
    then have "table_measure nfa ?table1 - (index + 1) < table_measure nfa table - index"
      by (simp add: table_measure_fold)
    then have ih: "nfa_to_dfa_loop nfa' (index + 1) ?table1 ?acc1 = nfa_to_dfa_loop nfa (index + 1) ?table1 ?acc1"
      by (rule less.hyps)
    have "nfa_to_dfa_loop nfa' index table acc = nfa_to_dfa_loop nfa' (index + 1) ?table1 ?acc1"
      unfolding t using True
      by (subst nfa_to_dfa_loop_unfold) (simp only: if_True assms nfa_to_dfa_symbol_cong [OF assms(1)])
    also note ih
    also have "nfa_to_dfa_loop nfa (index + 1) ?table1 ?acc1 = nfa_to_dfa_loop nfa index table acc"
    proof (rule sym)
      show "nfa_to_dfa_loop nfa index table acc = nfa_to_dfa_loop nfa (index + 1) ?table1 ?acc1"
        unfolding t using True
        by (subst nfa_to_dfa_loop_unfold) (simp only: if_True)
    qed
    finally show ?thesis .
  qed
qed

lemma nfa_to_dfa_cong:
  assumes "transitions nfa' = transitions nfa" "alphabet nfa' = alphabet nfa"
      and "accept_states nfa' = accept_states nfa" "start_state nfa' = start_state nfa"
  shows "nfa_to_dfa nfa' = nfa_to_dfa nfa"
proof -
  have "epsilon_closure nfa' = epsilon_closure nfa"
    by (intro ext) (simp add: epsilon_closure_def epsilon_closure_loop_cong [OF assms(1)])
  then have "nfa_to_dfa_run nfa' = nfa_to_dfa_run nfa"
    by (simp add: nfa_to_dfa_run_def assms(4) nfa_to_dfa_loop_cong [OF assms(1,2,3)])
  then show ?thesis by (simp add: nfa_to_dfa_def assms(2))
qed

text \<open>
  Claim C7 says that \<open>nfa_to_dfa\<close> fails with an input-validation error exactly when the start
  state of the NFA is not in its state list. The start state 5 of \<open>stray_start_nfa\<close> is not
  among its states 0 and 1, and \<open>nfa_to_dfa\<close> returns a DFA with three states for it.
\<close>

theorem nfa_to_dfa_no_validation_counterexample:
  "start_state stray_start_nfa \<notin> set (states stray_start_nfa)
   \<and> states (nfa_to_dfa stray_start_nfa) = [0, 1, 2]
   \<and> alphabet (nfa_to_dfa stray_start_nfa) = [''a'']
   \<and> start_state (nfa_to_dfa stray_start_nfa) = 0
   \<and> accept_states (nfa_to_dfa stray_start_nfa) = [1]
   \<and> fmlookup (transitions (nfa_to_dfa stray_start_nfa)) (0, ''a'') = Some 1
   \<and> fmlookup (transitions (nfa_to_dfa stray_start_nfa)) (1, ''a'') = Some 2
   \<and> fmlookup (transitions (nfa_to_dfa stray_start_nfa)) (2, ''a'') = Some 2"
  by code_simp

text \<open>
  Claim C7, amended. \<open>nfa_to_dfa\<close> validates nothing and has no failure of its own: it never
  reads the state list of the NFA, so it returns the same DFA whatever that list is, also when
  the start state is not in it. The DFA has at least the state 0, which is its start state and
  stands for the epsilon-closure of the start state of the NFA.
\<close>

theorem nfa_to_dfa_ignores_states:
  "nfa_to_dfa (nfa\<lparr>states := state_list\<rparr>) = nfa_to_dfa nfa
   \<and> states (nfa_to_dfa nfa) \<noteq> []
   \<and> start_state (nfa_to_dfa nfa) = 0
   \<and> set (nfa_to_dfa_subsets nfa ! 0) = eps_close nfa {start_state nfa}"
proof -
  have "nfa_to_dfa (nfa\<lparr>states := state_list\<rparr>) = nfa_to_dfa nfa"
    by (rule nfa_to_dfa_cong) simp_all
  then show ?thesis
    using nfa_to_dfa_start [of nfa]
    by (simp add: nfa_to_dfa_fields)
qed

theorem nfa_to_dfa_ignores_states_witness:
  "nfa_to_dfa (stray_start_nfa\<lparr>states := [5, 1]\<rparr>) = nfa_to_dfa stray_start_nfa
   \<and> states (nfa_to_dfa stray_start_nfa) = [0, 1, 2]"
proof -
  have "states (nfa_to_dfa stray_start_nfa) = [0, 1, 2]" by code_simp
  with nfa_to_dfa_ignores_states [where nfa = stray_start_nfa and state_list = "[5, 1]"] show ?thesis by simp
qed

section \<open>Properties of the decider and of the simulation\<close>

lemma lookup_tm_state_entries:
  "fmlookup (tm_state_entries dfa (int (length (states dfa))) (int (length (states dfa)) + 1) s m) (q, x) =
     (if q = s \<and> x \<in> set INPUT_ALPHABET \<union> {''_''} then Some (tmd_next dfa q x, x, ''R'') else fmlookup m (q, x))"
  by (auto simp: tm_state_entries_def tm_symbol_entry_def INPUT_ALPHABET_def tmd_next_def Let_def)

lemma lookup_fold_tm_state_entries:
  "fmlookup (fold (tm_state_entries dfa (int (length (states dfa))) (int (length (states dfa)) + 1)) xs m) (q, x) =
     (if q \<in> set xs \<and> x \<in> set INPUT_ALPHABET \<union> {''_''} then Some (tmd_next dfa q x, x, ''R'') else fmlookup m (q, x))"
proof (induction xs arbitrary: m)
  case Nil
  show ?case by simp
next
  case (Cons s xs)
  show ?case
    unfolding fold_Cons comp_apply Cons.IH lookup_tm_state_entries by auto
qed

lemma lookup_dfa_to_tm_decider:
  "fmlookup (tm_transitions (dfa_to_tm_decider dfa)) (q, x) =
     (if q \<in> set (states dfa) \<and> x \<in> set INPUT_ALPHABET \<union> {''_''} then Some (tmd_next dfa q x, x, ''R'') else None)"
  by (simp add: dfa_to_tm_decider_def Let_def lookup_fold_tm_state_entries)

lemma tmd_fields:
  "num_states (dfa_to_tm_decider dfa) = int (length (states dfa)) + 2"
  "tm_start_state (dfa_to_tm_decider dfa) = start_state dfa"
  "blank (dfa_to_tm_decider dfa) = ''_''"
  "tm_accept_states (dfa_to_tm_decider dfa) = [int (length (states dfa))]"
  "tm_reject_states (dfa_to_tm_decider dfa) = [int (length (states dfa)) + 1]"
  by (simp_all add: dfa_to_tm_decider_def Let_def)

lemma tm_loop_iter:
  "tm_iter tm max_steps k c = Some c' \<Longrightarrow> tm_loop tm max_steps c = tm_loop tm max_steps c'"
proof (induction k arbitrary: c')
  case 0
  then show ?case by simp
next
  case (Suc k)
  from Suc.prems obtain d where d: "tm_iter tm max_steps k c = Some d"
    and b: "tm_body tm max_steps d = Continue c'"
    by (auto split: option.splits iteration.splits)
  have "tm_loop tm max_steps d = tm_loop tm max_steps c'"
    by (subst tm_loop.simps) (simp add: b)
  with Suc.IH [OF d] show ?case by simp
qed

lemma tm_loop_Return:
  "tm_body tm max_steps c = Return r \<Longrightarrow> tm_loop tm max_steps c = Some r"
  by (subst tm_loop.simps) simp

lemma tm_loop_Continue:
  "tm_body tm max_steps c = Continue c' \<Longrightarrow> tm_loop tm max_steps c = tm_loop tm max_steps c'"
  by (subst tm_loop.simps) simp

lemma dfa_wf_state_range:
  assumes "dfa_wf dfa" "q \<in> set (states dfa)"
  shows "0 \<le> q \<and> q < int (length (states dfa))"
proof -
  from assms(1) have "set (states dfa) = int ` {0 ..< length (states dfa)}"
    unfolding dfa_wf_def by (metis set_map set_upt)
  with assms(2) show ?thesis by auto
qed

subsection \<open>Rendering of integers\<close>

lemma length_str_nat_small: "n < 10 \<Longrightarrow> length (str_nat n) = 1"
  by (subst str_nat.simps) simp

lemma length_str_nat_large: "\<not> n < 10 \<Longrightarrow> length (str_nat n) = Suc (length (str_nat (n div 10)))"
  by (subst str_nat.simps) simp

lemma length_str_nat_pos: "0 < length (str_nat n)"
  by (cases "n < 10") (simp_all add: length_str_nat_small length_str_nat_large)

lemma length_str_nat_bound:
  "0 < k \<Longrightarrow> length (str_nat n) \<le> k \<longleftrightarrow> n < 10 ^ k"
proof (induction k arbitrary: n)
  case 0
  then show ?case by simp
next
  case (Suc k)
  show ?case
  proof (cases "n < 10")
    case True
    have "(10::nat) ^ 1 \<le> 10 ^ Suc k" by (rule power_increasing) simp_all
    then have "(10::nat) \<le> 10 ^ Suc k" by (simp only: power_one_right)
    with True have "n < 10 ^ Suc k" by (rule less_le_trans)
    with True show ?thesis by (simp add: length_str_nat_small)
  next
    case False
    show ?thesis
    proof (cases "k = 0")
      case True
      with False show ?thesis
        using length_str_nat_pos [of "n div 10"] by (simp add: length_str_nat_large)
    next
      case k: False
      then have "length (str_nat (n div 10)) \<le> k \<longleftrightarrow> n div 10 < 10 ^ k"
        using Suc.IH [of "n div 10"] by simp
      also have "\<dots> \<longleftrightarrow> n < 10 ^ k * 10"
        by (rule div_less_iff_less_mult) simp
      finally show ?thesis using False by (simp add: length_str_nat_large mult.commute)
    qed
  qed
qed

lemma renders_iff: "renders i \<longleftrightarrow> \<bar>i\<bar> < 10 ^ int_max_str_digits"
proof -
  have pos: "0 < int_max_str_digits" by (simp add: int_max_str_digits_def)
  have "renders i \<longleftrightarrow> nat \<bar>i\<bar> < 10 ^ int_max_str_digits"
    unfolding renders_def by (rule length_str_nat_bound [OF pos])
  also have "\<dots> \<longleftrightarrow> int (nat \<bar>i\<bar>) < int (10 ^ int_max_str_digits)"
    by (simp only: of_nat_less_iff)
  also have "\<dots> \<longleftrightarrow> \<bar>i\<bar> < 10 ^ int_max_str_digits"
    by simp
  finally show ?thesis .
qed

lemma renders_limit: "\<not> renders (10 ^ int_max_str_digits)"
  by (simp add: renders_iff)

lemma renders_mono: "\<bar>i\<bar> \<le> \<bar>j\<bar> \<Longrightarrow> renders j \<Longrightarrow> renders i"
  unfolding renders_iff by (rule le_less_trans)

lemma renders_small: "\<bar>i\<bar> < 10 \<Longrightarrow> renders i"
  by (simp add: renders_def length_str_nat_small int_max_str_digits_def)

lemma str_int_Inr_iff: "(\<exists>s. str_int i = Inr s) \<longleftrightarrow> renders i"
  by (auto simp: str_int_def renders_def Let_def)

lemma str_int_Inl: "str_int i = Inl e \<Longrightarrow> e = ValueError"
  by (auto simp: str_int_def Let_def split: if_splits)

lemma format_configuration_Inr_iff:
  "(\<exists>line. format_configuration state tape head_position = Inr line) \<longleftrightarrow>
     renders state \<and> renders head_position"
  unfolding str_int_Inr_iff [symmetric]
  by (auto simp: format_configuration_def Let_def split: sum.splits)

lemma format_configuration_Inl:
  "format_configuration state tape head_position = Inl e \<Longrightarrow> e = ValueError"
  by (auto simp: format_configuration_def Let_def split: sum.splits dest: str_int_Inl)

lemma format_configuration_cases:
  obtains (raises) "format_configuration state tape head_position = Inl ValueError"
      "\<not> (renders state \<and> renders head_position)"
    | (recorded) line where "format_configuration state tape head_position = Inr line"
proof (cases "format_configuration state tape head_position")
  case (Inl e)
  then have "format_configuration state tape head_position = Inl ValueError"
    using format_configuration_Inl by blast
  moreover have "\<not> (renders state \<and> renders head_position)"
    using Inl format_configuration_Inr_iff [of state tape head_position] by simp
  ultimately show thesis by (rule raises)
next
  case (Inr line)
  then show thesis by (rule recorded)
qed

lemma dfa_wf_renders:
  assumes "dfa_wf dfa" "renders (int (length (states dfa)) + 1)"
  shows "dfa_renders dfa"
proof -
  have st: "renders q" if "q \<in> set (states dfa)" for q
  proof -
    from dfa_wf_state_range [OF assms(1) that]
    have "\<bar>q\<bar> \<le> \<bar>int (length (states dfa)) + 1\<bar>" by simp
    then show ?thesis using assms(2) by (rule renders_mono)
  qed
  have "start_state dfa \<in> set (states dfa)"
    using assms(1) by (simp add: dfa_wf_def)
  moreover have "t \<in> set (states dfa)" if "fmlookup (transitions dfa) k = Some t" for k t
    using assms(1) that unfolding dfa_wf_def by blast
  ultimately show ?thesis
    unfolding dfa_renders_def using st assms(2) by blast
qed

lemma renders_tmd_next:
  assumes "dfa_renders dfa"
  shows "renders (tmd_next dfa q x)"
proof -
  let ?n = "int (length (states dfa))"
  have n1: "renders (?n + 1)" using assms by (simp add: dfa_renders_def)
  have "\<bar>?n\<bar> \<le> \<bar>?n + 1\<bar>" by simp
  then have n: "renders ?n" using n1 by (rule renders_mono)
  have t: "renders t" if "fmlookup (transitions dfa) (q, x) = Some t" for t
    using assms that unfolding dfa_renders_def by blast
  show ?thesis
    using n n1 t by (auto simp: tmd_next_def Let_def split: option.splits)
qed

subsection \<open>The body of the loop\<close>

lemma tm_body_raises:
  "format_configuration (c_state c) (c_tape c) (c_head c) = Inl e \<Longrightarrow>
     tm_body tm max_steps c = Return (Inl e)"
  by (simp add: tm_body_def)

text \<open>The body on a decider, head inside the tape.\<close>

lemma tmd_body:
  assumes "0 \<le> c_head c" "c_head c < int (length (c_tape c))"
      and "format_configuration (c_state c) (c_tape c) (c_head c) = Inr line"
  shows "tm_body (dfa_to_tm_decider dfa) None c =
    (let confs = c_configurations c @ [line];
         x = c_tape c ! nat (c_head c) in
     if c_state c = int (length (states dfa)) then Return (Inr (1, confs))
     else if c_state c = int (length (states dfa)) + 1 then Return (Inr (0, confs))
     else if c_state c \<in> set (states dfa) \<and> x \<in> set INPUT_ALPHABET \<union> {''_''} then
       Continue \<lparr> c_tape = c_tape c, c_head = c_head c + 1, c_state = tmd_next dfa (c_state c) x,
                  c_configurations = confs, c_steps = c_steps c + 1 \<rparr>
     else Return (Inr (0, confs)))"
  using assms
  by (auto simp add: tm_body_def tmd_fields lookup_dfa_to_tm_decider Let_def)

lemma tmd_body_sink:
  assumes "c_state c = int (length (states dfa)) \<or> c_state c = int (length (states dfa)) + 1"
      and "format_configuration (c_state c) (c_tape c) (c_head c) = Inr line"
  shows "tm_body (dfa_to_tm_decider dfa) max_steps c =
     Return (Inr (if c_state c = int (length (states dfa)) then 1 else 0, c_configurations c @ [line]))"
  using assms by (auto simp add: tm_body_def tmd_fields Let_def)

lemma tmd_next_blank_sink:
  "tmd_next dfa q ''_'' = int (length (states dfa)) \<or> tmd_next dfa q ''_'' = int (length (states dfa)) + 1"
  by (simp add: tmd_next_def Let_def)

text \<open>
  A decider in a sink state: the loop ends in this pass, with the verdict of the sink if the
  configuration renders and with \<open>ValueError\<close> if not.
\<close>

lemma tmd_loop_sink:
  assumes "c_state c = int (length (states dfa)) \<or> c_state c = int (length (states dfa)) + 1"
  shows "\<exists>r. tm_loop (dfa_to_tm_decider dfa) max_steps c = Some r
      \<and> (r = Inl ValueError \<or> (\<exists>trace. r = Inr (if c_state c = int (length (states dfa)) then 1 else 0, trace)))
      \<and> (renders (c_state c) \<and> renders (c_head c) \<longrightarrow>
           (\<exists>trace. r = Inr (if c_state c = int (length (states dfa)) then 1 else 0, trace)))"
proof (cases rule: format_configuration_cases
    [where state = "c_state c" and tape = "c_tape c" and head_position = "c_head c"])
  case raises
  have "tm_loop (dfa_to_tm_decider dfa) max_steps c = Some (Inl ValueError)"
    by (rule tm_loop_Return [OF tm_body_raises [OF raises(1)]])
  with raises(2) show ?thesis by simp
next
  case (recorded line)
  have "tm_loop (dfa_to_tm_decider dfa) max_steps c =
      Some (Inr (if c_state c = int (length (states dfa)) then 1 else 0, c_configurations c @ [line]))"
    by (rule tm_loop_Return [OF tmd_body_sink [OF assms recorded]])
  then show ?thesis by simp
qed

text \<open>
  A decider with the head on the input or on the blank that follows it: the loop ends, with
  the verdict \<open>tmd_verdict\<close> or with \<open>ValueError\<close>, and with the verdict if all numbers render.
\<close>

lemma tmd_loop:
  assumes "c_tape c = w @ [''_'']" "c_head c = int k" "k \<le> length w"
  shows "\<exists>r. tm_loop (dfa_to_tm_decider dfa) None c = Some r
      \<and> (r = Inl ValueError \<or> (\<exists>trace. r = Inr (tmd_verdict dfa (c_state c) (drop k w), trace)))
      \<and> (dfa_renders dfa \<and> renders (int (length w) + 1) \<and> renders (c_state c) \<longrightarrow>
           (\<exists>trace. r = Inr (tmd_verdict dfa (c_state c) (drop k w), trace)))"
  using assms
proof (induction "length w - k" arbitrary: k c rule: less_induct)
  case less
  let ?n = "int (length (states dfa))"
  let ?tm = "dfa_to_tm_decider dfa"
  let ?G = "dfa_renders dfa \<and> renders (int (length w) + 1)"
  have inside: "0 \<le> c_head c" "c_head c < int (length (c_tape c))"
    using less.prems by simp_all
  have head_renders: "renders (int j)" if "renders (int (length w) + 1)" "j \<le> length w + 1" for j
  proof -
    have "\<bar>int j\<bar> \<le> \<bar>int (length w) + 1\<bar>" using that(2) by simp
    then show ?thesis using that(1) by (rule renders_mono)
  qed
  show ?case
  proof (cases rule: format_configuration_cases
    [where state = "c_state c" and tape = "c_tape c" and head_position = "c_head c"])
    case raises
    have "tm_loop ?tm None c = Some (Inl ValueError)"
      by (rule tm_loop_Return [OF tm_body_raises [OF raises(1)]])
    moreover have "\<not> (?G \<and> renders (c_state c))"
      using raises(2) head_renders [of k] less.prems by auto
    ultimately show ?thesis by simp
  next
    case (recorded line)
    define x where "x = c_tape c ! nat (c_head c)"
    have d: "(k = length w \<and> x = ''_'' \<and> drop k w = []) \<or> (k < length w \<and> drop k w = x # drop (Suc k) w)"
    proof (cases "k < length w")
      case True
      then have "x = w ! k" using less.prems by (simp add: x_def nth_append)
      with True show ?thesis by (simp add: Cons_nth_drop_Suc)
    next
      case False
      with less.prems have "k = length w" by simp
      then show ?thesis using less.prems by (simp add: x_def nth_append)
    qed
    let ?c' = "\<lparr> c_tape = c_tape c, c_head = c_head c + 1, c_state = tmd_next dfa (c_state c) x,
                  c_configurations = c_configurations c @ [line], c_steps = c_steps c + 1 \<rparr>"
    show ?thesis
    proof (cases "c_state c = ?n \<or> c_state c = ?n + 1 \<or> c_state c \<notin> set (states dfa)
        \<or> x \<notin> set INPUT_ALPHABET \<union> {''_''}")
      case True
      have "\<exists>trace. tm_body ?tm None c = Return (Inr (tmd_verdict dfa (c_state c) (drop k w), trace))"
        using d
      proof
        assume "k = length w \<and> x = ''_'' \<and> drop k w = []"
        with True show ?thesis
          by (auto simp: tmd_body [OF inside recorded] Let_def x_def [symmetric])
      next
        assume "k < length w \<and> drop k w = x # drop (Suc k) w"
        with True show ?thesis
          by (auto simp: tmd_body [OF inside recorded] Let_def x_def [symmetric])
      qed
      then obtain trace where "tm_loop ?tm None c = Some (Inr (tmd_verdict dfa (c_state c) (drop k w), trace))"
        by (auto dest: tm_loop_Return)
      then show ?thesis by simp
    next
      case False
      then have b: "tm_body ?tm None c = Continue ?c'"
        by (simp add: tmd_body [OF inside recorded] Let_def x_def [symmetric])
      have l: "tm_loop ?tm None c = tm_loop ?tm None ?c'"
        by (rule tm_loop_Continue [OF b])
      have next_renders: "dfa_renders dfa \<Longrightarrow> renders (c_state ?c')"
        by (simp add: renders_tmd_next)
      show ?thesis
      proof (cases "x = ''_''")
        case True
        have s: "c_state ?c' = ?n \<or> c_state ?c' = ?n + 1"
          using tmd_next_blank_sink [of dfa "c_state c"] True by simp
        have v: "(if c_state ?c' = ?n then 1 else 0) = tmd_verdict dfa (c_state c) (drop k w)"
          using d False True by (auto simp: tmd_next_def Let_def)
        from tmd_loop_sink [OF s, of None] obtain r where
          r: "tm_loop ?tm None ?c' = Some r"
             "r = Inl ValueError \<or> (\<exists>trace. r = Inr (if c_state ?c' = ?n then 1 else 0, trace))"
             "renders (c_state ?c') \<and> renders (c_head ?c') \<longrightarrow>
                (\<exists>trace. r = Inr (if c_state ?c' = ?n then 1 else 0, trace))"
          by blast
        have "renders (c_head ?c')" if "renders (int (length w) + 1)"
          using head_renders [OF that, of "Suc k"] less.prems by (simp add: add.commute)
        with r(3) next_renders have "?G \<longrightarrow> (\<exists>trace. r = Inr (if c_state ?c' = ?n then 1 else 0, trace))"
          by blast
        with r(1,2) show ?thesis unfolding l v by blast
      next
        case nb: False
        with d have k: "k < length w" and dk: "drop k w = x # drop (Suc k) w" by auto
        have "\<exists>r. tm_loop ?tm None ?c' = Some r
          \<and> (r = Inl ValueError \<or> (\<exists>trace. r = Inr (tmd_verdict dfa (c_state ?c') (drop (Suc k) w), trace)))
          \<and> (dfa_renders dfa \<and> renders (int (length w) + 1) \<and> renders (c_state ?c') \<longrightarrow>
               (\<exists>trace. r = Inr (tmd_verdict dfa (c_state ?c') (drop (Suc k) w), trace)))"
          by (rule less.hyps) (use less.prems k in simp_all)
        then obtain r where
          r: "tm_loop ?tm None ?c' = Some r"
             "r = Inl ValueError \<or> (\<exists>trace. r = Inr (tmd_verdict dfa (c_state ?c') (drop (Suc k) w), trace))"
             "dfa_renders dfa \<and> renders (int (length w) + 1) \<and> renders (c_state ?c') \<longrightarrow>
               (\<exists>trace. r = Inr (tmd_verdict dfa (c_state ?c') (drop (Suc k) w), trace))"
          by blast
        have v: "tmd_verdict dfa (c_state c) (drop k w) = tmd_verdict dfa (c_state ?c') (drop (Suc k) w)"
          unfolding dk using False nb by simp
        from r(3) next_renders
        have "?G \<longrightarrow> (\<exists>trace. r = Inr (tmd_verdict dfa (c_state ?c') (drop (Suc k) w), trace))"
          by blast
        with r(1,2) show ?thesis unfolding l v by blast
      qed
    qed
  qed
qed

lemma tmd_simulate:
  "\<exists>r. simulate_tm (dfa_to_tm_decider dfa) input_string None = Some r
      \<and> (r = Inl ValueError \<or> (\<exists>trace. r = Inr (tmd_verdict dfa (start_state dfa) input_string, trace)))
      \<and> (dfa_renders dfa \<and> renders (int (length input_string) + 1) \<longrightarrow>
           (\<exists>trace. r = Inr (tmd_verdict dfa (start_state dfa) input_string, trace)))"
proof -
  let ?c = "tm_initial (dfa_to_tm_decider dfa) input_string"
  have c: "c_state ?c = start_state dfa" by (simp add: tm_initial_def tmd_fields)
  have "\<exists>r. tm_loop (dfa_to_tm_decider dfa) None ?c = Some r
      \<and> (r = Inl ValueError \<or> (\<exists>trace. r = Inr (tmd_verdict dfa (c_state ?c) (drop 0 input_string), trace)))
      \<and> (dfa_renders dfa \<and> renders (int (length input_string) + 1) \<and> renders (c_state ?c) \<longrightarrow>
           (\<exists>trace. r = Inr (tmd_verdict dfa (c_state ?c) (drop 0 input_string), trace)))"
    by (rule tmd_loop) (simp_all add: tm_initial_def tmd_fields)
  then show ?thesis
    unfolding c simulate_tm_def by (auto simp: dfa_renders_def)
qed

lemma tmd_verdict_range: "tmd_verdict dfa q w = 0 \<or> tmd_verdict dfa q w = 1"
  by (induction w arbitrary: q) auto

lemma tmd_verdict_reject: "tmd_verdict dfa (int (length (states dfa)) + 1) w = 0"
  by (cases w) simp_all

lemma tmd_verdict_dfa_run:
  assumes "dfa_wf dfa" "q \<in> set (states dfa)" "set w \<subseteq> set INPUT_ALPHABET"
  shows "tmd_verdict dfa q w =
     (if (case dfa_run dfa q w of None \<Rightarrow> False | Some q' \<Rightarrow> q' \<in> set (accept_states dfa)) then 1 else 0)"
  using assms(2,3)
proof (induction w arbitrary: q)
  case Nil
  then show ?case using dfa_wf_state_range [OF assms(1), of q] by simp
next
  case (Cons x xs)
  let ?n = "int (length (states dfa))"
  have q: "q \<noteq> ?n" "q \<noteq> ?n + 1"
    using dfa_wf_state_range [OF assms(1) Cons.prems(1)] by simp_all
  have x: "x \<in> set INPUT_ALPHABET" "x \<noteq> ''_''" and xs: "set xs \<subseteq> set INPUT_ALPHABET"
    using Cons.prems(2) by (auto simp: INPUT_ALPHABET_def)
  show ?case
  proof (cases "x \<in> set (alphabet dfa)")
    case False
    then show ?thesis using q x Cons.prems(1)
      by (simp add: tmd_next_def tmd_verdict_reject)
  next
    case True
    show ?thesis
    proof (cases "fmlookup (transitions dfa) (q, x)")
      case None
      then show ?thesis using q x True Cons.prems(1)
        by (simp add: tmd_next_def tmd_verdict_reject)
    next
      case (Some t)
      then have "t \<in> set (states dfa)"
        using assms(1) unfolding dfa_wf_def by blast
      from Cons.IH [OF this xs] show ?thesis using q x True Some Cons.prems(1)
        by (simp add: tmd_next_def)
    qed
  qed
qed

text \<open>
  Claim C1. For every DFA of the data model (states \<open>0 .. N-1\<close>, start state and transition
  targets among them) and every input string over the input alphabet \<open>INPUT_ALPHABET\<close>, the
  empty string included, \<open>simulate_tm\<close> run without a step budget on
  \<open>dfa_to_tm_decider dfa\<close> returns the verdict 1 (accept) if the DFA accepts the string and the
  verdict 0 (reject) otherwise. The two lists are of a length that Python can print: the
  number of states plus one and the length of the input plus one have at most
  \<open>int_max_str_digits\<close> decimal digits, that is they are below \<open>10 ^ 4300\<close>.
\<close>

theorem simulate_decider_agrees_with_dfa:
  assumes "dfa_wf dfa" "set input_string \<subseteq> set INPUT_ALPHABET"
      and "renders (int (length (states dfa)) + 1)" "renders (int (length input_string) + 1)"
  shows "\<exists>trace. simulate_tm (dfa_to_tm_decider dfa) input_string None =
           Some (Inr (if dfa_accepts dfa input_string then 1 else 0, trace))"
proof -
  have "dfa_renders dfa" using assms(1,3) by (rule dfa_wf_renders)
  with tmd_simulate [of dfa input_string] assms(4)
  have "\<exists>trace. simulate_tm (dfa_to_tm_decider dfa) input_string None =
      Some (Inr (tmd_verdict dfa (start_state dfa) input_string, trace))"
    by auto
  moreover have "start_state dfa \<in> set (states dfa)"
    using assms(1) by (simp add: dfa_wf_def)
  ultimately show ?thesis
    using tmd_verdict_dfa_run [OF assms(1) _ assms(2), of "start_state dfa"]
    by (simp add: dfa_accepts_def)
qed

lemma dfa_wf_example_dfa: "dfa_wf example_dfa"
  unfolding dfa_wf_def
  by (auto simp: example_dfa_def fmlookup_of_list split: if_splits)

theorem simulate_decider_agrees_with_dfa_witness:
  "dfa_wf example_dfa \<and> set [''a'', ''b''] \<subseteq> set INPUT_ALPHABET
   \<and> renders (int (length (states example_dfa)) + 1) \<and> renders (int (length [''a'', ''b'']) + 1)
   \<and> dfa_accepts example_dfa [''a'', ''b'']
   \<and> (\<exists>trace. simulate_tm (dfa_to_tm_decider example_dfa) [''a'', ''b''] None = Some (Inr (1, trace)))"
proof -
  have h: "set [''a'', ''b''] \<subseteq> set INPUT_ALPHABET"
    by (simp add: INPUT_ALPHABET_def)
  have r1: "renders (int (length (states example_dfa)) + 1)"
    by (rule renders_small) (simp add: example_dfa_def)
  have r2: "renders (int (length [''a'', ''b'']) + 1)"
    by (rule renders_small) simp
  have acc: "dfa_accepts example_dfa [''a'', ''b'']"
    by (simp add: dfa_accepts_def example_dfa_def fmlookup_of_list)
  from simulate_decider_agrees_with_dfa [OF dfa_wf_example_dfa h r1 r2] dfa_wf_example_dfa h r1 r2 acc
  show ?thesis by simp
qed

text \<open>
  Claim C3. For every DFA and every finite input string, the loop of \<open>simulate_tm\<close> run on
  \<open>dfa_to_tm_decider dfa\<close> with \<open>max_steps\<close> absent ends. It ends with the verdict 1 (accept) or
  0 (reject) whenever the numbers it prints render: the start state, the transition targets,
  the number of states plus one and the length of the input plus one have at most
  \<open>int_max_str_digits\<close> decimal digits, as they have for every DFA of the data model and every
  list that Python can hold. (For a number with more digits, recording the configuration
  raises \<open>ValueError\<close>.)
\<close>

theorem simulate_decider_halts:
  "\<exists>r. simulate_tm (dfa_to_tm_decider dfa) input_string None = Some r
      \<and> (r = Inl ValueError \<or> (\<exists>verdict trace. r = Inr (verdict, trace) \<and> (verdict = 1 \<or> verdict = 0)))
      \<and> (dfa_renders dfa \<and> renders (int (length input_string) + 1) \<longrightarrow>
           (\<exists>verdict trace. r = Inr (verdict, trace) \<and> (verdict = 1 \<or> verdict = 0)))"
proof -
  from tmd_simulate [of dfa input_string] obtain r where
    r: "simulate_tm (dfa_to_tm_decider dfa) input_string None = Some r"
       "r = Inl ValueError \<or> (\<exists>trace. r = Inr (tmd_verdict dfa (start_state dfa) input_string, trace))"
       "dfa_renders dfa \<and> renders (int (length input_string) + 1) \<longrightarrow>
           (\<exists>trace. r = Inr (tmd_verdict dfa (start_state dfa) input_string, trace))"
    by blast
  note v = tmd_verdict_range [of dfa "start_state dfa" input_string]
  have "r = Inl ValueError \<or> (\<exists>verdict trace. r = Inr (verdict, trace) \<and> (verdict = 1 \<or> verdict = 0))"
    using r(2) v by auto
  moreover have "dfa_renders dfa \<and> renders (int (length input_string) + 1) \<longrightarrow>
      (\<exists>verdict trace. r = Inr (verdict, trace) \<and> (verdict = 1 \<or> verdict = 0))"
    using r(3) v by auto
  ultimately show ?thesis using r(1) by blast
qed

theorem simulate_decider_halts_witness:
  "dfa_renders example_dfa \<and> renders (int (length [''a'', ''b'', ''b'']) + 1)
   \<and> (\<exists>trace. simulate_tm (dfa_to_tm_decider example_dfa) [''a'', ''b'', ''b''] None = Some (Inr (0, trace)))"
proof -
  have r1: "renders (int (length (states example_dfa)) + 1)"
    by (rule renders_small) (simp add: example_dfa_def)
  have h1: "dfa_renders example_dfa"
    using dfa_wf_example_dfa r1 by (rule dfa_wf_renders)
  have h2: "renders (int (length [''a'', ''b'', ''b'']) + 1)"
    by (rule renders_small) simp
  have run: "simulate_tm (dfa_to_tm_decider example_dfa) [''a'', ''b'', ''b''] None =
      Some (Inr (0, [''state=0, tape=abb_, head pos=0'', ''state=1, tape=abb_, head pos=1'',
                     ''state=2, tape=abb_, head pos=2'', ''state=0, tape=abb_, head pos=3'',
                     ''state=4, tape=abb_, head pos=4'']))"
    by code_simp
  from simulate_decider_halts [of example_dfa "[''a'', ''b'', ''b'']"] h1 h2 run
  show ?thesis by simp
qed

lemma tm_body_invariant:
  assumes "tm_body tm max_steps c = Continue c'"
      and "- 1 \<le> c_head c" "c_head c \<le> int (length (c_tape c))"
  shows "- 1 \<le> c_head c' \<and> c_head c' \<le> int (length (c_tape c'))
       \<and> length (c_configurations c') = Suc (length (c_configurations c))
       \<and> c_steps c' = c_steps c + 1"
  using assms
  by (auto simp: tm_body_def Let_def split: sum.splits if_splits option.splits prod.splits)

lemma tm_iter_invariant:
  assumes "tm_iter tm max_steps k (tm_initial tm input_string) = Some c"
  shows "- 1 \<le> c_head c \<and> c_head c \<le> int (length (c_tape c))
       \<and> length (c_configurations c) = k \<and> c_steps c = int k"
  using assms
proof (induction k arbitrary: c)
  case 0
  then show ?case by (auto simp: tm_initial_def)
next
  case (Suc k)
  from Suc.prems obtain d where d: "tm_iter tm max_steps k (tm_initial tm input_string) = Some d"
    and b: "tm_body tm max_steps d = Continue c"
    by (auto split: option.splits iteration.splits)
  from Suc.IH [OF d] tm_body_invariant [OF b] show ?case by simp
qed

lemma tm_body_absent:
  assumes "c_state c \<notin> set (tm_accept_states tm)"
      and "format_configuration (c_state c) (c_tape c) (c_head c) = Inr line"
      and "fmlookup (tm_transitions tm) (c_state c, tm_read tm c) = None"
      and "- 1 \<le> c_head c" "c_head c \<le> int (length (c_tape c))"
  shows "tm_body tm max_steps c = Return (Inr (0, c_configurations c @ [line]))"
  using assms
  by (auto simp: tm_body_def tm_read_def Let_def split: if_splits option.splits prod.splits)

text \<open>
  A pass whose configuration does not render ends \<open>simulate_tm\<close> with \<open>ValueError\<close>, before
  the transition mapping is looked at.
\<close>

lemma simulate_unprintable_raises:
  assumes "tm_iter tm max_steps k (tm_initial tm input_string) = Some c"
      and "\<not> (renders (c_state c) \<and> renders (c_head c))"
  shows "simulate_tm tm input_string max_steps = Some (Inl ValueError)"
proof (cases rule: format_configuration_cases
    [where state = "c_state c" and tape = "c_tape c" and head_position = "c_head c"])
  case raises
  have "simulate_tm tm input_string max_steps = tm_loop tm max_steps c"
    unfolding simulate_tm_def by (rule tm_loop_iter [OF assms(1)])
  also have "\<dots> = Some (Inl ValueError)"
    by (rule tm_loop_Return [OF tm_body_raises [OF raises(1)]])
  finally show ?thesis .
next
  case (recorded line)
  then have "renders (c_state c) \<and> renders (c_head c)"
    using format_configuration_Inr_iff [of "c_state c" "c_tape c" "c_head c"] by blast
  with assms(2) show ?thesis by simp
qed

text \<open>
  Claim C9. For every Turing machine and every input string: if the loop of \<open>simulate_tm\<close>
  begins a pass (after \<open>k\<close> transitions) in a state that is not accepting, records the
  configuration of the pass as the line \<open>line\<close>, and the pair of the current state and the
  symbol under the head has no entry in the transition mapping, then \<open>simulate_tm\<close> returns,
  without an error, the verdict 0 (reject) together with the trace of the \<open>k\<close> configurations
  recorded before and the configuration of that pass. The configuration is recorded exactly
  when the state number and the head position render, that is when they have at most
  \<open>int_max_str_digits\<close> decimal digits (lemma \<open>format_configuration_Inr_iff\<close>); otherwise the
  pass raises \<open>ValueError\<close> before the lookup (lemma \<open>simulate_unprintable_raises\<close>).
\<close>

theorem simulate_missing_transition_rejects:
  assumes "tm_iter tm max_steps k (tm_initial tm input_string) = Some c"
      and "c_state c \<notin> set (tm_accept_states tm)"
      and "format_configuration (c_state c) (c_tape c) (c_head c) = Inr line"
      and "fmlookup (tm_transitions tm) (c_state c, tm_read tm c) = None"
  shows "simulate_tm tm input_string max_steps = Some (Inr (0, c_configurations c @ [line]))
         \<and> length (c_configurations c) = k"
proof -
  have inv: "- 1 \<le> c_head c" "c_head c \<le> int (length (c_tape c))" "length (c_configurations c) = k"
    using tm_iter_invariant [OF assms(1)] by simp_all
  have "simulate_tm tm input_string max_steps = tm_loop tm max_steps c"
    unfolding simulate_tm_def by (rule tm_loop_iter [OF assms(1)])
  also have "\<dots> = Some (Inr (0, c_configurations c @ [line]))"
    by (rule tm_loop_Return [OF tm_body_absent [OF assms(2,3,4) inv(1,2)]])
  finally show ?thesis using inv(3) by simp
qed

theorem simulate_missing_transition_rejects_witness:
  "tm_iter partial_tm None 1 (tm_initial partial_tm [''a'', ''b'']) =
     Some \<lparr> c_tape = [''a'', ''b'', ''_''], c_head = 1, c_state = 1,
            c_configurations = [''state=0, tape=ab_, head pos=0''], c_steps = 1 \<rparr>
   \<and> 1 \<notin> set (tm_accept_states partial_tm)
   \<and> format_configuration 1 [''a'', ''b'', ''_''] 1 = Inr ''state=1, tape=ab_, head pos=1''
   \<and> fmlookup (tm_transitions partial_tm) (1, ''b'') = None
   \<and> simulate_tm partial_tm [''a'', ''b''] None =
       Some (Inr (0, [''state=0, tape=ab_, head pos=0'', ''state=1, tape=ab_, head pos=1'']))"
proof -
  let ?c = "\<lparr> c_tape = [''a'', ''b'', ''_''], c_head = 1, c_state = 1,
            c_configurations = [''state=0, tape=ab_, head pos=0''], c_steps = 1 \<rparr>"
  have reach: "tm_iter partial_tm None 1 (tm_initial partial_tm [''a'', ''b'']) = Some ?c"
    by code_simp
  have acc: "c_state ?c \<notin> set (tm_accept_states partial_tm)"
    by (simp add: partial_tm_def)
  have fmt: "format_configuration 1 [''a'', ''b'', ''_''] 1 = Inr ''state=1, tape=ab_, head pos=1''"
    by code_simp
  have fmt': "format_configuration (c_state ?c) (c_tape ?c) (c_head ?c) = Inr ''state=1, tape=ab_, head pos=1''"
    using fmt by simp
  have rd: "tm_read partial_tm ?c = ''b''"
    by (simp add: tm_read_def)
  have absent: "fmlookup (tm_transitions partial_tm) (c_state ?c, tm_read partial_tm ?c) = None"
    unfolding rd by (simp add: partial_tm_def fmlookup_of_list)
  from simulate_missing_transition_rejects [OF reach acc fmt' absent] reach acc fmt absent show ?thesis
    by (simp add: rd)
qed

text \<open>
  Claim C6 says that \<open>num_states\<close> counts the states inherited from the DFA only and that the
  two sinks lie beyond it. For the example DFA with three states the decider has
  \<open>num_states = 5\<close>, and its sinks 3 and 4 lie below that number.
\<close>

theorem decider_num_states_counterexample:
  "length (states example_dfa) = 3
   \<and> num_states (dfa_to_tm_decider example_dfa) = 5
   \<and> tm_accept_states (dfa_to_tm_decider example_dfa) = [3]
   \<and> tm_reject_states (dfa_to_tm_decider example_dfa) = [4]
   \<and> num_states (dfa_to_tm_decider example_dfa) \<noteq> int (length (states example_dfa))
   \<and> \<not> num_states (dfa_to_tm_decider example_dfa) \<le> 3
   \<and> \<not> num_states (dfa_to_tm_decider example_dfa) \<le> 4"
  by (simp add: tmd_fields example_dfa_def)

text \<open>
  Claim C6, amended. \<open>num_states\<close> of the decider is the number of all its states, the
  states inherited from the DFA and the two sinks: it is the number of DFA states plus two. The
  accept sink is the state \<open>num_states - 2\<close>, the reject sink is the state \<open>num_states - 1\<close>,
  and the start state is the start state of the DFA.
\<close>

theorem decider_num_states_counts_sinks:
  "num_states (dfa_to_tm_decider dfa) = int (length (states dfa)) + 2
   \<and> tm_accept_states (dfa_to_tm_decider dfa) = [num_states (dfa_to_tm_decider dfa) - 2]
   \<and> tm_reject_states (dfa_to_tm_decider dfa) = [num_states (dfa_to_tm_decider dfa) - 1]
   \<and> tm_start_state (dfa_to_tm_decider dfa) = start_state dfa"
  by (simp add: tmd_fields)

text \<open>
  Claim C4. For every DFA with the states \<open>0 .. N-1\<close> whose alphabet is contained in
  \<open>INPUT_ALPHABET\<close>: the transition mapping of the decider has an entry for every state
  \<open>0 .. N-1\<close> and every symbol of the input alphabet or the blank; for an input symbol for which
  the DFA has no transition the entry goes to the reject state (writing the symbol back, moving
  right); and the accept state and the reject state have no entry at all. (On the blank the
  DFA has no transition at all, and the entry goes to the accept state if the DFA state is
  accepting and to the reject state if not.)
\<close>

theorem decider_transitions_total:
  assumes "states dfa = map int [0 ..< length (states dfa)]"
      and "set (alphabet dfa) \<subseteq> set INPUT_ALPHABET"
  shows "(\<forall>q x. 0 \<le> q \<and> q < int (length (states dfa)) \<and> x \<in> set INPUT_ALPHABET \<union> set (alphabet dfa) \<union> {''_''}
            \<longrightarrow> (\<exists>nxt_st tape_char direction.
                  fmlookup (tm_transitions (dfa_to_tm_decider dfa)) (q, x) = Some (nxt_st, tape_char, direction)))
       \<and> (\<forall>q x. 0 \<le> q \<and> q < int (length (states dfa)) \<and> x \<in> set INPUT_ALPHABET
              \<and> fmlookup (transitions dfa) (q, x) = None
            \<longrightarrow> fmlookup (tm_transitions (dfa_to_tm_decider dfa)) (q, x) =
                  Some (int (length (states dfa)) + 1, x, ''R''))
       \<and> (\<forall>q. 0 \<le> q \<and> q < int (length (states dfa))
            \<longrightarrow> fmlookup (tm_transitions (dfa_to_tm_decider dfa)) (q, ''_'') =
                  Some (if q \<in> set (accept_states dfa) then int (length (states dfa))
                        else int (length (states dfa)) + 1, ''_'', ''R''))
       \<and> (\<forall>q x. q \<in> set (tm_accept_states (dfa_to_tm_decider dfa)) \<union> set (tm_reject_states (dfa_to_tm_decider dfa))
            \<longrightarrow> fmlookup (tm_transitions (dfa_to_tm_decider dfa)) (q, x) = None)
       \<and> tm_accept_states (dfa_to_tm_decider dfa) = [int (length (states dfa))]
       \<and> tm_reject_states (dfa_to_tm_decider dfa) = [int (length (states dfa)) + 1]"
proof -
  let ?n = "length (states dfa)"
  have mem: "q \<in> set (states dfa) \<longleftrightarrow> 0 \<le> q \<and> q < int ?n" for q
  proof -
    have "set (states dfa) = int ` {0 ..< ?n}"
      using assms(1) by (metis set_map set_upt)
    then show ?thesis
      by (auto simp: image_iff intro: bexI [of _ "nat q"])
  qed
  have total: "\<exists>nxt_st tape_char direction.
      fmlookup (tm_transitions (dfa_to_tm_decider dfa)) (q, x) = Some (nxt_st, tape_char, direction)"
    if "0 \<le> q \<and> q < int ?n \<and> x \<in> set INPUT_ALPHABET \<union> set (alphabet dfa) \<union> {''_''}" for q x
    using that assms(2) by (auto simp: lookup_dfa_to_tm_decider mem)
  have absent: "fmlookup (tm_transitions (dfa_to_tm_decider dfa)) (q, x) = Some (int ?n + 1, x, ''R'')"
    if "0 \<le> q \<and> q < int ?n \<and> x \<in> set INPUT_ALPHABET \<and> fmlookup (transitions dfa) (q, x) = None" for q x
    using that by (auto simp: lookup_dfa_to_tm_decider mem tmd_next_def INPUT_ALPHABET_def Let_def)
  have sink: "fmlookup (tm_transitions (dfa_to_tm_decider dfa)) (q, x) = None"
    if "q \<in> set (tm_accept_states (dfa_to_tm_decider dfa)) \<union> set (tm_reject_states (dfa_to_tm_decider dfa))" for q x
    using that by (auto simp: lookup_dfa_to_tm_decider mem tmd_fields)
  have blank_row: "fmlookup (tm_transitions (dfa_to_tm_decider dfa)) (q, ''_'') =
      Some (if q \<in> set (accept_states dfa) then int ?n else int ?n + 1, ''_'', ''R'')"
    if "0 \<le> q \<and> q < int ?n" for q
    using that by (simp add: lookup_dfa_to_tm_decider mem tmd_next_def)
  show ?thesis
    using total absent blank_row sink by (simp add: tmd_fields)
qed

theorem decider_transitions_total_witness:
  "states example_dfa = map int [0 ..< length (states example_dfa)]
   \<and> set (alphabet example_dfa) \<subseteq> set INPUT_ALPHABET
   \<and> fmlookup (transitions example_dfa) (2, ''a'') = Some 1
   \<and> (\<exists>nxt_st tape_char direction.
         fmlookup (tm_transitions (dfa_to_tm_decider example_dfa)) (2, ''a'') = Some (nxt_st, tape_char, direction))
   \<and> fmlookup (tm_transitions (dfa_to_tm_decider example_dfa)) (2, ''_'') = Some (3, ''_'', ''R'')
   \<and> fmlookup (tm_transitions (dfa_to_tm_decider example_dfa)) (3, ''a'') = None
   \<and> fmlookup (tm_transitions (dfa_to_tm_decider example_dfa)) (4, ''_'') = None"
proof -
  have h1: "states example_dfa = map int [0 ..< length (states example_dfa)]"
    by (simp add: example_dfa_def)
  have h2: "set (alphabet example_dfa) \<subseteq> set INPUT_ALPHABET"
    by (simp add: example_dfa_def INPUT_ALPHABET_def)
  have h3: "fmlookup (transitions example_dfa) (2, ''a'') = Some 1"
    by (simp add: example_dfa_def fmlookup_of_list)
  from decider_transitions_total [OF h1 h2] h1 h2 h3 show ?thesis
    by (simp add: example_dfa_def INPUT_ALPHABET_def tmd_fields)
qed

lemma tmd_body_Continue:
  assumes "tm_body (dfa_to_tm_decider dfa) max_steps c = Continue c'"
      and "0 \<le> c_head c" "c_head c < int (length (c_tape c))"
  shows "c_tape c' = c_tape c \<and> c_head c' = c_head c + 1
       \<and> c_state c \<noteq> int (length (states dfa)) \<and> c_state c \<noteq> int (length (states dfa)) + 1
       \<and> c_state c' = tmd_next dfa (c_state c) (c_tape c ! nat (c_head c))"
  using assms
  by (auto simp: tm_body_def Let_def tmd_fields lookup_dfa_to_tm_decider split: sum.splits if_splits option.splits)

lemma tmd_iter_invariant:
  assumes "tm_iter (dfa_to_tm_decider dfa) max_steps k (tm_initial (dfa_to_tm_decider dfa) input_string) = Some c"
  shows "c_head c = int k \<and> c_tape c = input_string @ [''_''] \<and> k \<le> length input_string + 1
       \<and> (k = length input_string + 1 \<longrightarrow>
            c_state c = int (length (states dfa)) \<or> c_state c = int (length (states dfa)) + 1)"
  using assms
proof (induction k arbitrary: c)
  case 0
  then show ?case by (auto simp: tm_initial_def tmd_fields)
next
  case (Suc k)
  let ?tm = "dfa_to_tm_decider dfa"
  from Suc.prems obtain d where d: "tm_iter ?tm max_steps k (tm_initial ?tm input_string) = Some d"
    and b: "tm_body ?tm max_steps d = Continue c"
    by (auto split: option.splits iteration.splits)
  note ih = Suc.IH [OF d]
  have ns: "c_state d \<noteq> int (length (states dfa)) \<and> c_state d \<noteq> int (length (states dfa)) + 1"
    using b by (auto simp: tm_body_def Let_def tmd_fields split: sum.splits if_splits)
  with ih have k: "k \<le> length input_string" by auto
  have inside: "0 \<le> c_head d" "c_head d < int (length (c_tape d))"
    using ih k by simp_all
  note st = tmd_body_Continue [OF b inside]
  have "c_state c = int (length (states dfa)) \<or> c_state c = int (length (states dfa)) + 1"
    if "k = length input_string"
  proof -
    have "c_tape d ! nat (c_head d) = ''_''"
      using ih that by (simp add: nth_append)
    with st tmd_next_blank_sink [of dfa "c_state d"] show ?thesis by simp
  qed
  with st ih k show ?case by auto
qed

text \<open>
  Claim C10. For every Turing machine built by \<open>dfa_to_tm_decider\<close> and every input string:
  whenever the loop of \<open>simulate_tm\<close> begins a pass after \<open>k\<close> transitions, the head is at
  position \<open>k\<close>, so it is never negative, and the tape is still the input followed by one
  blank, so nothing was ever inserted at its left end.
\<close>

theorem decider_head_moves_right:
  assumes "tm_iter (dfa_to_tm_decider dfa) max_steps k (tm_initial (dfa_to_tm_decider dfa) input_string) = Some c"
  shows "c_head c = int k \<and> 0 \<le> c_head c \<and> c_tape c = input_string @ [''_'']"
  using tmd_iter_invariant [OF assms] by simp

theorem decider_head_moves_right_witness:
  "tm_iter (dfa_to_tm_decider example_dfa) None 3
       (tm_initial (dfa_to_tm_decider example_dfa) [''a'', ''b'', ''b'']) =
     Some \<lparr> c_tape = [''a'', ''b'', ''b'', ''_''], c_head = 3, c_state = 0,
            c_configurations = [''state=0, tape=abb_, head pos=0'', ''state=1, tape=abb_, head pos=1'',
                                ''state=2, tape=abb_, head pos=2''],
            c_steps = 3 \<rparr>"
proof -
  let ?c = "\<lparr> c_tape = [''a'', ''b'', ''b'', ''_''], c_head = 3, c_state = 0,
            c_configurations = [''state=0, tape=abb_, head pos=0'', ''state=1, tape=abb_, head pos=1'',
                                ''state=2, tape=abb_, head pos=2''],
            c_steps = 3 \<rparr>"
  have reach: "tm_iter (dfa_to_tm_decider example_dfa) None 3
       (tm_initial (dfa_to_tm_decider example_dfa) [''a'', ''b'', ''b'']) = Some ?c"
    by code_simp
  from decider_head_moves_right [OF reach] reach show ?thesis by simp
qed


end
